theory Spec2Isabelle
  imports Main "HOL-Library.Multiset"
begin

section \<open>Preference lists\<close>

text \<open>
  The program \<^verbatim>\<open>grid_trial.cpp\<close> searches grid preference profiles. A preference list
  is a \<^verbatim>\<open>vector<int>\<close>; the placeholder for an unknown list is the empty vector.
  Where the C++ throws, fails an assertion or reads a vector out of range, the model
  returns an error value instead of a result.
\<close>

datatype error =
    LogicError        \<comment> \<open>\<^verbatim>\<open>throw logic_error("Could not find candidate.")\<close>\<close>
  | AssertionFailed   \<comment> \<open>a failed \<^verbatim>\<open>assert\<close>\<close>
  | OutOfRange        \<comment> \<open>\<^verbatim>\<open>operator[]\<close> beyond the size of a vector (undefined behaviour)\<close>
  | LengthError       \<comment> \<open>\<^verbatim>\<open>vector\<close> constructed or resized with a negative size\<close>
  | SignedOverflow    \<comment> \<open>an \<^verbatim>\<open>int\<close> addition whose result no \<^verbatim>\<open>int\<close> holds (undefined behaviour)\<close>

type_synonym Pref = "int list"

definition EmptyProf :: Pref where
  "EmptyProf = []"

text \<open>The loop of \<^verbatim>\<open>pos\<close>, from index \<open>i\<close> on.\<close>

function pos_from :: "Pref \<Rightarrow> int \<Rightarrow> nat \<Rightarrow> error + int" where
  "pos_from p c i =
     (if i < length p
      then (if p ! i = c then Inr (int i) else pos_from p c (Suc i))
      else Inl LogicError)"
  by pat_completeness auto
termination
  by (relation "measure (\<lambda>(p, c, i). length p - i)") auto

definition pos :: "Pref \<Rightarrow> int \<Rightarrow> error + int" where
  "pos p c = pos_from p c 0"

definition prefers :: "Pref \<Rightarrow> int \<Rightarrow> int \<Rightarrow> error + bool" where
  "prefers p ca cb =
     (case pos p ca of
        Inl e \<Rightarrow> Inl e
      | Inr ia \<Rightarrow> (case pos p cb of Inl e \<Rightarrow> Inl e | Inr ib \<Rightarrow> Inr (ia < ib)))"

text \<open>
  \<open>iota C\<close> is the list \<open>0, 1, ..., C - 1\<close>; a full permutation of the candidates
  \<open>{0, ..., C - 1}\<close> holds every candidate once.
\<close>

definition iota :: "int \<Rightarrow> Pref" where
  "iota C = map int [0..<nat C]"

definition full_permutation :: "Pref \<Rightarrow> int \<Rightarrow> bool" where
  "full_permutation p C = (0 \<le> C \<and> length p = nat C \<and> distinct p \<and> list_all (\<lambda>c. 0 \<le> c \<and> c < C) p)"

section \<open>Bounding boxes\<close>

definition INF_int :: int where
  "INF_int = 2147483647"

text \<open>The values of the type \<^verbatim>\<open>int\<close> (32 bits, two's complement).\<close>

definition int_value :: "int \<Rightarrow> bool" where
  "int_value x = (- INF_int - 1 \<le> x \<and> x \<le> INF_int)"

record Rect =
  r0 :: int
  r1 :: int
  c0 :: int
  c1 :: int

text \<open>The default constructor \<^verbatim>\<open>Rect()\<close>: the empty box.\<close>

definition Rect_default :: Rect where
  "Rect_default = \<lparr>r0 = INF_int, r1 = - INF_int, c0 = INF_int, c1 = - INF_int\<rparr>"

definition Rect_add :: "Rect \<Rightarrow> int \<Rightarrow> int \<Rightarrow> Rect" where
  "Rect_add b r c = \<lparr>r0 = min (r0 b) r, r1 = max (r1 b) r, c0 = min (c0 b) c, c1 = max (c1 b) c\<rparr>"

definition intersects_with_horizontal :: "Rect \<Rightarrow> int \<Rightarrow> bool" where
  "intersects_with_horizontal b r = (r0 b \<le> r \<and> r < r1 b)"

definition intersects_with_vertical :: "Rect \<Rightarrow> int \<Rightarrow> bool" where
  "intersects_with_vertical b c = (c0 b \<le> c \<and> c < c1 b)"

definition do_intersect :: "Rect \<Rightarrow> Rect \<Rightarrow> bool" where
  "do_intersect a b =
     (if r0 a > r1 b then False
      else if r0 b > r1 a then False
      else if c0 a > c1 b then False
      else if c0 b > c1 a then False
      else True)"

section \<open>Grid profiles\<close>

type_synonym Grid = "Pref list list"

text \<open>\<^verbatim>\<open>g[i][j]\<close>: reading outside a vector is undefined behaviour, here an error.\<close>

definition cell :: "Grid \<Rightarrow> nat \<Rightarrow> nat \<Rightarrow> error + Pref" where
  "cell g i j = (if i < length g \<and> j < length (g ! i) then Inr (g ! i ! j) else Inl OutOfRange)"

text \<open>
  A \<^verbatim>\<open>for\<close> loop over the indices \<open>is\<close> that updates a local variable and may fail,
  and a \<^verbatim>\<open>for\<close> loop that returns \<^verbatim>\<open>true\<close> from the function at the first index
  whose test holds.
\<close>

primrec for_loop :: "'i list \<Rightarrow> ('i \<Rightarrow> 's \<Rightarrow> error + 's) \<Rightarrow> 's \<Rightarrow> error + 's" where
  "for_loop [] body s = Inr s"
| "for_loop (i # is) body s =
     (case body i s of Inl e \<Rightarrow> Inl e | Inr s' \<Rightarrow> for_loop is body s')"

primrec any_loop :: "nat list \<Rightarrow> (nat \<Rightarrow> error + bool) \<Rightarrow> error + bool" where
  "any_loop [] test = Inr False"
| "any_loop (i # is) test =
     (case test i of
        Inl e \<Rightarrow> Inl e
      | Inr hit \<Rightarrow> (if hit then Inr True else any_loop is test))"

text \<open>
  The header shared by the grid functions: \<open>N\<close> and \<open>M\<close> are read from the grid and
  asserted positive, then the body runs.
\<close>

definition with_dims :: "Grid \<Rightarrow> (nat \<Rightarrow> nat \<Rightarrow> error + 'a) \<Rightarrow> error + 'a" where
  "with_dims g body =
     (if length g = 0 then Inl AssertionFailed
      else if length (g ! 0) = 0 then Inl AssertionFailed
      else body (length g) (length (g ! 0)))"

definition get_preference_bounding_box :: "Grid \<Rightarrow> int \<Rightarrow> int \<Rightarrow> error + Rect" where
  "get_preference_bounding_box g ca cb =
     with_dims g (\<lambda>N M.
       for_loop [0..<N] (\<lambda>i. for_loop [0..<M] (\<lambda>j ans.
         case cell g i j of
           Inl e \<Rightarrow> Inl e
         | Inr p \<Rightarrow>
             if p \<noteq> EmptyProf
             then (case prefers p ca cb of
                     Inl e \<Rightarrow> Inl e
                   | Inr b \<Rightarrow> Inr (if b then Rect_add ans (int i) (int j) else ans))
             else Inr ans)) Rect_default)"

text \<open>\<^verbatim>\<open>g[i][j][0]\<close> is read without a test for the placeholder.\<close>

definition get_dominance_box :: "Grid \<Rightarrow> int \<Rightarrow> error + Rect" where
  "get_dominance_box g c =
     with_dims g (\<lambda>N M.
       for_loop [0..<N] (\<lambda>i. for_loop [0..<M] (\<lambda>j ans.
         case cell g i j of
           Inl e \<Rightarrow> Inl e
         | Inr p \<Rightarrow>
             if 0 < length p
             then Inr (if p ! 0 = c then Rect_add ans (int i) (int j) else ans)
             else Inl OutOfRange)) Rect_default)"

definition grid_valid :: "Grid \<Rightarrow> int \<Rightarrow> error + bool" where
  "grid_valid g C =
     (case any_loop [0..<nat C] (\<lambda>ca. any_loop [Suc ca..<nat C] (\<lambda>cb.
             case get_preference_bounding_box g (int ca) (int cb) of
               Inl e \<Rightarrow> Inl e
             | Inr a \<Rightarrow>
                 (case get_preference_bounding_box g (int cb) (int ca) of
                    Inl e \<Rightarrow> Inl e
                  | Inr b \<Rightarrow> Inr (do_intersect a b)))) of
        Inl e \<Rightarrow> Inl e
      | Inr hit \<Rightarrow> Inr (\<not> hit))"

definition is_monodominated :: "Grid \<Rightarrow> error + bool" where
  "is_monodominated g =
     with_dims g (\<lambda>N M.
       case get_dominance_box g 0 of
         Inl e \<Rightarrow> Inl e
       | Inr r \<Rightarrow> Inr (r0 r = 0 \<and> c0 r = 0 \<and> r1 r = int N - 1 \<and> c1 r = int M - 1))"

definition has_isolated :: "Grid \<Rightarrow> int \<Rightarrow> error + bool" where
  "has_isolated g C =
     with_dims g (\<lambda>N M.
       any_loop [0..<nat C] (\<lambda>c.
         case get_dominance_box g (int c) of
           Inl e \<Rightarrow> Inl e
         | Inr r \<Rightarrow>
             if r0 r = INF_int then Inr False
             else Inr (r0 r > 0 \<and> r1 r < int N - 1 \<and> c0 r > 0 \<and> c1 r < int M - 1)))"

section \<open>Vocabulary of the specification\<close>

text \<open>
  A rectangular profile: every row is as long as row 0. A complete profile: rectangular,
  and every voter has a (non-empty) preference list. The voters of a profile in row-major order, the voters whose most
  preferred candidate is \<open>c\<close>, the voters who prefer \<open>ca\<close> to \<open>cb\<close>, and the bounding box
  of a list of voters: the rows and columns from the least to the greatest, or the
  default box when there is no voter.
\<close>

definition rectangular :: "Grid \<Rightarrow> bool" where
  "rectangular g =
     (0 < length g \<and> 0 < length (g ! 0) \<and> list_all (\<lambda>row. length row = length (g ! 0)) g)"

definition complete_grid :: "Grid \<Rightarrow> bool" where
  "complete_grid g = (rectangular g \<and> list_all (list_all (\<lambda>p. p \<noteq> EmptyProf)) g)"

definition voters :: "Grid \<Rightarrow> (nat \<times> nat) list" where
  "voters g = List.product [0..<length g] [0..<length (g ! 0)]"

definition voters_with_top :: "Grid \<Rightarrow> int \<Rightarrow> (nat \<times> nat) list" where
  "voters_with_top g c =
     filter (\<lambda>(i, j). g ! i ! j \<noteq> EmptyProf \<and> g ! i ! j ! 0 = c) (voters g)"

definition bounding_box :: "(nat \<times> nat) list \<Rightarrow> Rect" where
  "bounding_box vs =
     (if vs = [] then Rect_default
      else \<lparr>r0 = int (Min (set (map fst vs))), r1 = int (Max (set (map fst vs))),
            c0 = int (Min (set (map snd vs))), c1 = int (Max (set (map snd vs)))\<rparr>)"

text \<open>Adding a voter's coordinates to a box, as the loops over the grid do.\<close>

definition add_voter :: "nat \<times> nat \<Rightarrow> Rect \<Rightarrow> Rect" where
  "add_voter v b = Rect_add b (int (fst v)) (int (snd v))"

text \<open>
  \<^verbatim>\<open>g[r][c] = p\<close>, and the profile on which every voter's most preferred candidate is
  \<open>c\<close>.
\<close>

definition set_cell :: "Grid \<Rightarrow> nat \<Rightarrow> nat \<Rightarrow> Pref \<Rightarrow> Grid" where
  "set_cell g r c p = g[r := (g ! r)[c := p]]"

definition top_everywhere :: "Grid \<Rightarrow> int \<Rightarrow> bool" where
  "top_everywhere g c = list_all (list_all (\<lambda>p. p ! 0 = c)) g"

section \<open>Auxiliary notions for the proofs\<close>

text \<open>
  One box lies within another; a voter lies within a box. The bodies of the two loops
  over the grid, as functions of the voter. The test \<^verbatim>\<open>grid_valid\<close> makes for one pair of
  candidates. The only error a newly assigned list can cause: \<^verbatim>\<open>logic_error\<close>, when it
  lacks a candidate.
\<close>

definition box_le :: "Rect \<Rightarrow> Rect \<Rightarrow> bool" where
  "box_le b a = (r0 a \<le> r0 b \<and> r1 b \<le> r1 a \<and> c0 a \<le> c0 b \<and> c1 b \<le> c1 a)"

definition inside :: "nat \<times> nat \<Rightarrow> Rect \<Rightarrow> bool" where
  "inside v a = (r0 a \<le> int (fst v) \<and> int (fst v) \<le> r1 a \<and> c0 a \<le> int (snd v) \<and> int (snd v) \<le> c1 a)"

definition preference_step :: "Grid \<Rightarrow> int \<Rightarrow> int \<Rightarrow> nat \<times> nat \<Rightarrow> Rect \<Rightarrow> error + Rect" where
  "preference_step g ca cb v ans =
     (case cell g (fst v) (snd v) of
        Inl e \<Rightarrow> Inl e
      | Inr p \<Rightarrow>
          if p \<noteq> EmptyProf
          then (case prefers p ca cb of
                  Inl e \<Rightarrow> Inl e
                | Inr b \<Rightarrow> Inr (if b then Rect_add ans (int (fst v)) (int (snd v)) else ans))
          else Inr ans)"

definition dominance_step :: "Grid \<Rightarrow> int \<Rightarrow> nat \<times> nat \<Rightarrow> Rect \<Rightarrow> error + Rect" where
  "dominance_step g c v ans =
     (case cell g (fst v) (snd v) of
        Inl e \<Rightarrow> Inl e
      | Inr p \<Rightarrow>
          if 0 < length p
          then Inr (if p ! 0 = c then Rect_add ans (int (fst v)) (int (snd v)) else ans)
          else Inl OutOfRange)"

definition step_kind :: "(nat \<times> nat \<Rightarrow> Rect \<Rightarrow> error + Rect) \<Rightarrow> nat \<times> nat \<Rightarrow> bool" where
  "step_kind step v =
     ((\<forall>s. step v s = Inr s) \<or> (\<forall>s. step v s = Inr (add_voter v s)) \<or> (\<exists>e. \<forall>s. step v s = Inl e))"

definition pair_hit :: "Grid \<Rightarrow> nat \<Rightarrow> nat \<Rightarrow> error + bool" where
  "pair_hit g ca cb =
     (case get_preference_bounding_box g (int ca) (int cb) of
        Inl e \<Rightarrow> Inl e
      | Inr a \<Rightarrow>
          (case get_preference_bounding_box g (int cb) (int ca) of
             Inl e \<Rightarrow> Inl e
           | Inr b \<Rightarrow> Inr (do_intersect a b)))"

definition lacks_candidate :: "Pref \<Rightarrow> int \<Rightarrow> error \<Rightarrow> bool" where
  "lacks_candidate p C e = (e = LogicError \<and> \<not> (\<forall>k. 0 \<le> k \<and> k < C \<longrightarrow> k \<in> set p))"

text \<open>A complete profile on which the voters with top candidate 0 sit on a diagonal.\<close>

definition checkerboard :: Grid where
  "checkerboard = [[[0, 1], [1, 0]], [[1, 0], [0, 1]]]"

text \<open>
  The profile of the header comment of \<^verbatim>\<open>grid_trial.cpp\<close> (hypothesis 2): three rows
  of three voters over five candidates.
\<close>

definition scenario_C :: Grid where
  "scenario_C =
     [[[0, 1, 2, 3, 4], [0, 2, 1, 3, 4], [0, 3, 2, 1, 4]],
      [[1, 2, 3, 0, 4], [2, 1, 3, 0, 4], [3, 2, 1, 0, 4]],
      [[4, 1, 2, 3, 0], [4, 2, 1, 3, 0], [4, 3, 2, 1, 0]]]"

section \<open>Crossing count\<close>

text \<open>
  \<^verbatim>\<open>cnt_crosses\<close>: the two inverse arrays are filled in one loop (reading \<open>p0[i]\<close>,
  \<open>p1[i]\<close> and writing the arrays at these indices, out of range when an index is), then
  the crossing pairs are counted. The counter \<^verbatim>\<open>ans\<close> is an \<^verbatim>\<open>int\<close>: the addition
  \<^verbatim>\<open>ans += ...\<close> fails when its result is not a value of \<^verbatim>\<open>int\<close>.
\<close>

definition cnt_crosses :: "Pref \<Rightarrow> Pref \<Rightarrow> int \<Rightarrow> error + int" where
  "cnt_crosses p0 p1 C =
     (if C < 0 then Inl LengthError
      else
        case for_loop [0..<nat C] (\<lambda>i (inv_p0, inv_p1).
               if i < length p0 \<and> i < length p1
                  \<and> 0 \<le> p0 ! i \<and> p0 ! i < C \<and> 0 \<le> p1 ! i \<and> p1 ! i < C
               then Inr (inv_p0[nat (p0 ! i) := int i], inv_p1[nat (p1 ! i) := int i])
               else Inl OutOfRange)
             (replicate (nat C) 0, replicate (nat C) 0) of
          Inl e \<Rightarrow> Inl e
        | Inr (inv_p0, inv_p1) \<Rightarrow>
            for_loop [0..<nat C] (\<lambda>ca. for_loop [Suc ca..<nat C] (\<lambda>cb ans.
              if int_value
                   (ans + of_bool ((inv_p0 ! ca < inv_p0 ! cb) \<noteq> (inv_p1 ! ca < inv_p1 ! cb)))
              then Inr (ans + of_bool ((inv_p0 ! ca < inv_p0 ! cb) \<noteq> (inv_p1 ! ca < inv_p1 ! cb)))
              else Inl SignedOverflow)) 0)"

text \<open>The inverse-rank array of a list, and the number of crossing pairs of two arrays.\<close>

definition inverse_of :: "Pref \<Rightarrow> nat \<Rightarrow> int list" where
  "inverse_of p n = fold (\<lambda>i inv. inv[nat (p ! i) := int i]) [0..<n] (replicate n 0)"

definition crossings :: "int list \<Rightarrow> int list \<Rightarrow> nat \<Rightarrow> int" where
  "crossings a b n =
     (\<Sum>ca = 0..<n. \<Sum>cb = Suc ca..<n. of_bool ((a ! ca < a ! cb) \<noteq> (b ! ca < b ! cb)))"

section \<open>The backtracking search\<close>

text \<open>
  \<^verbatim>\<open>admits_split_line\<close>: some line between two neighbouring rows, or between two
  neighbouring columns, crosses the dominance box of no candidate.
\<close>

definition admits_split_line :: "Grid \<Rightarrow> int \<Rightarrow> error + bool" where
  "admits_split_line g C =
     with_dims g (\<lambda>N M.
       case any_loop [0..<N - 1] (\<lambda>i.
              case any_loop [0..<nat C] (\<lambda>c.
                     case get_dominance_box g (int c) of
                       Inl e \<Rightarrow> Inl e
                     | Inr r \<Rightarrow> Inr (intersects_with_horizontal r (int i))) of
                Inl e \<Rightarrow> Inl e
              | Inr crossed \<Rightarrow> Inr (\<not> crossed)) of
         Inl e \<Rightarrow> Inl e
       | Inr found \<Rightarrow>
           if found then Inr True
           else any_loop [0..<M - 1] (\<lambda>j.
                  case any_loop [0..<nat C] (\<lambda>c.
                         case get_dominance_box g (int c) of
                           Inl e \<Rightarrow> Inl e
                         | Inr r \<Rightarrow> Inr (intersects_with_vertical r (int j))) of
                    Inl e \<Rightarrow> Inl e
                  | Inr crossed \<Rightarrow> Inr (\<not> crossed)))"

text \<open>
  \<^verbatim>\<open>std::next_permutation\<close> belongs to the C++ standard library, not to the repository:
  it rearranges a range into the next permutation in lexicographic order and returns
  true, or, when the range is the last permutation (descending), rearranges it into the
  first one (ascending) and returns false. The function below computes this from the
  right end of the list, as the library does: a tail without a next permutation has been
  reversed into ascending order, and the first element \<open>x\<close> in front of such a tail is
  exchanged with the least element of the tail that is greater than \<open>x\<close>.
\<close>

fun next_permutation :: "int list \<Rightarrow> bool \<times> int list" where
  "next_permutation [] = (False, [])"
| "next_permutation (x # xs) =
     (case next_permutation xs of
        (True, ys) \<Rightarrow> (True, x # ys)
      | (False, ys) \<Rightarrow>
          (case dropWhile (\<lambda>z. z \<le> x) ys of
             [] \<Rightarrow> (False, ys @ [x])
           | y # bs \<Rightarrow> (True, y # takeWhile (\<lambda>z. z \<le> x) ys @ x # bs)))"

text \<open>
  \<^verbatim>\<open>backtr\<close> mutates the grid in place and either returns, or prints the grid and exits
  the process (a counterexample to hypothesis 1), or fails (an exception, a failed
  assertion, a read out of range). The model passes the grid through and returns the
  outcome. Its recursion is bounded by a number of steps \<open>n\<close>, one for each call and each
  iteration of the loop; \<open>OutOfFuel\<close> says that the bound was reached, and
  \<open>backtr_terminates\<close> below shows that some bound always suffices. The loop
  \<^verbatim>\<open>do ... while (next_permutation(...))\<close> over the lists of one cell is
  \<open>permutations_loop\<close>. The progress counter and its messages are left out.
\<close>

datatype outcome =
    Returned Grid
  | Exited Grid
  | Failed error
  | OutOfFuel

text \<open>
  The test of hypothesis 1 at a leaf: the profile is printed and the run exits when it
  neither admits a split line nor is monodominated.
\<close>

definition test_hypothesis_1 :: "Grid \<Rightarrow> int \<Rightarrow> outcome" where
  "test_hypothesis_1 g C =
     (case admits_split_line g C of
        Inl e \<Rightarrow> Failed e
      | Inr sliceable \<Rightarrow>
          if sliceable then Returned g
          else (case is_monodominated g of
                  Inl e \<Rightarrow> Failed e
                | Inr dominated \<Rightarrow> if dominated then Returned g else Exited g))"

fun backtr :: "nat \<Rightarrow> Grid \<Rightarrow> int \<Rightarrow> nat \<Rightarrow> nat \<Rightarrow> outcome"
  and permutations_loop :: "nat \<Rightarrow> Grid \<Rightarrow> int \<Rightarrow> nat \<Rightarrow> nat \<Rightarrow> outcome" where
  "backtr 0 g C r c = OutOfFuel"
| "backtr (Suc n) g C r c =
     (if length g = 0 \<or> length (g ! 0) = 0 then Failed AssertionFailed
      else
        case grid_valid g C of
          Inl e \<Rightarrow> Failed e
        | Inr valid \<Rightarrow>
            if \<not> valid then Returned g
            else if r = length g then test_hypothesis_1 g C
            else if c = length (g ! 0) then backtr n g C (r + 1) 0
            else if \<not> (r < length g \<and> c < length (g ! r)) then Failed OutOfRange
            else if C < 0 then Failed LengthError
            else
              (case permutations_loop n (set_cell g r c (iota C)) C r c of
                 Returned g' \<Rightarrow> Returned (set_cell g' r c EmptyProf)
               | Exited g' \<Rightarrow> Exited g'
               | Failed e \<Rightarrow> Failed e
               | OutOfFuel \<Rightarrow> OutOfFuel))"
| "permutations_loop 0 g C r c = OutOfFuel"
| "permutations_loop (Suc n) g C r c =
     (case backtr n g C r (c + 1) of
        Returned g' \<Rightarrow>
          if r = 0 \<and> c = 0 then Returned g'
          else
            (case next_permutation (g' ! r ! c) of
               (True, p) \<Rightarrow> permutations_loop n (set_cell g' r c p) C r c
             | (False, p) \<Rightarrow> Returned (set_cell g' r c p))
      | Exited g' \<Rightarrow> Exited g'
      | Failed e \<Rightarrow> Failed e
      | OutOfFuel \<Rightarrow> OutOfFuel)"



text \<open>
  The row-major order of voters, and the precondition that the comment of \<^verbatim>\<open>backtr\<close>
  states: \<open>(r, c)\<close> is the first voter whose preferences are not yet decided, so every
  voter from \<open>(r, c)\<close> on is unassigned.
\<close>

definition row_major_before :: "nat \<times> nat \<Rightarrow> nat \<times> nat \<Rightarrow> bool" where
  "row_major_before v w = (fst v < fst w \<or> (fst v = fst w \<and> snd v < snd w))"

definition unassigned_from :: "Grid \<Rightarrow> nat \<Rightarrow> nat \<Rightarrow> bool" where
  "unassigned_from g r c =
     list_all (\<lambda>i. list_all (\<lambda>j. row_major_before (i, j) (r, c) \<or> g ! i ! j = EmptyProf)
                 [0..<length (g ! i)]) [0..<length g]"

text \<open>
  What a call at \<open>(r, c)\<close> may change: the shape of the grid stays, and a cell keeps its
  list or, from \<open>(r, c)\<close> on, has been cleared. For the loop at \<open>(r, c)\<close> the same holds
  apart from the cell \<open>(r, c)\<close> itself.
\<close>

definition frame :: "nat \<Rightarrow> nat \<Rightarrow> Grid \<Rightarrow> Grid \<Rightarrow> bool" where
  "frame r c g g' =
     (map length g' = map length g
      \<and> (\<forall>i j. i < length g \<and> j < length (g ! i) \<longrightarrow>
             g' ! i ! j = g ! i ! j
             \<or> (\<not> row_major_before (i, j) (r, c) \<and> g' ! i ! j = EmptyProf)))"

definition frame_except :: "nat \<Rightarrow> nat \<Rightarrow> Grid \<Rightarrow> Grid \<Rightarrow> bool" where
  "frame_except r c g g' =
     (map length g' = map length g
      \<and> (\<forall>i j. i < length g \<and> j < length (g ! i) \<and> (i, j) \<noteq> (r, c) \<longrightarrow>
             g' ! i ! j = g ! i ! j
             \<or> (\<not> row_major_before (i, j) (r, c) \<and> g' ! i ! j = EmptyProf)))"


text \<open>
  The invocations of \<^verbatim>\<open>backtr\<close> made by the search that starts on \<open>g0\<close>: the initial
  call; from a call that passes the assertions and \<^verbatim>\<open>grid_valid\<close> and is not at a leaf,
  the call for the next row when the row is finished, and otherwise the calls of the loop:
  the first with the cell set to \<open>0, ..., C - 1\<close>, each later one after the call before it
  has returned and \<^verbatim>\<open>next_permutation\<close> has produced another list (never for voter
  (0, 0), where the loop is left after the first call).
\<close>

definition proceeds :: "Grid \<Rightarrow> int \<Rightarrow> bool" where
  "proceeds g C = (0 < length g \<and> 0 < length (g ! 0) \<and> grid_valid g C = Inr True)"

inductive invoked :: "Grid \<Rightarrow> int \<Rightarrow> Grid \<Rightarrow> nat \<Rightarrow> nat \<Rightarrow> bool"
  for g0 :: Grid and C :: int where
  initial: "invoked g0 C g0 0 0"
| next_row:
    "invoked g0 C g r c \<Longrightarrow> proceeds g C \<Longrightarrow> r \<noteq> length g \<Longrightarrow> c = length (g ! 0)
       \<Longrightarrow> invoked g0 C g (r + 1) 0"
| first_permutation:
    "invoked g0 C g r c \<Longrightarrow> proceeds g C \<Longrightarrow> r \<noteq> length g \<Longrightarrow> c \<noteq> length (g ! 0)
       \<Longrightarrow> r < length g \<Longrightarrow> c < length (g ! r) \<Longrightarrow> 0 \<le> C
       \<Longrightarrow> invoked g0 C (set_cell g r c (iota C)) r (c + 1)"
| later_permutation:
    "invoked g0 C g r (c + 1) \<Longrightarrow> backtr n g C r (c + 1) = Returned g'
       \<Longrightarrow> \<not> (r = 0 \<and> c = 0) \<Longrightarrow> next_permutation (g' ! r ! c) = (True, p)
       \<Longrightarrow> invoked g0 C (set_cell g' r c p) r (c + 1)"

text \<open>The invariant of the search on an \<open>N\<close> by \<open>M\<close> grid, with the cursor in range.\<close>

definition search_invariant :: "nat \<Rightarrow> nat \<Rightarrow> int \<Rightarrow> Grid \<Rightarrow> nat \<Rightarrow> nat \<Rightarrow> bool" where
  "search_invariant N M C g r c =
     (length g = N \<and> (\<forall>i<N. length (g ! i) = M)
      \<and> ((r < N \<and> c \<le> M) \<or> (r = N \<and> c = 0))
      \<and> (\<forall>i<N. \<forall>j<M.
            (row_major_before (i, j) (r, c) \<longrightarrow> full_permutation (g ! i ! j) C)
            \<and> (\<not> row_major_before (i, j) (r, c) \<longrightarrow> g ! i ! j = EmptyProf))
      \<and> (row_major_before (0, 0) (r, c) \<longrightarrow> g ! 0 ! 0 = iota C))"

section \<open>Rank of a candidate\<close>

lemma pos_from_Inr:
  "pos_from p c i = Inr k \<Longrightarrow>
     \<exists>n. k = int n \<and> i \<le> n \<and> n < length p \<and> p ! n = c \<and> (\<forall>m. i \<le> m \<and> m < n \<longrightarrow> p ! m \<noteq> c)"
proof (induction p c i rule: pos_from.induct)
  case (1 p c i)
  show ?case
  proof (cases "i < length p")
    case False
    with "1.prems" show ?thesis by simp
  next
    case inside: True
    show ?thesis
    proof (cases "p ! i = c")
      case True
      with inside "1.prems" show ?thesis by auto
    next
      case False
      with inside "1.prems" have "pos_from p c (Suc i) = Inr k" by simp
      from "1.IH"[OF inside False this] obtain n where
        n: "k = int n" "Suc i \<le> n" "n < length p" "p ! n = c"
           "\<forall>m. Suc i \<le> m \<and> m < n \<longrightarrow> p ! m \<noteq> c" by blast
      have "\<forall>m. i \<le> m \<and> m < n \<longrightarrow> p ! m \<noteq> c"
      proof (intro allI impI)
        fix m assume m: "i \<le> m \<and> m < n"
        show "p ! m \<noteq> c"
        proof (cases "m = i")
          case True with False show ?thesis by simp
        next
          case False with m n(5) show ?thesis by simp
        qed
      qed
      with n show ?thesis by (intro exI[of _ n]) simp
    qed
  qed
qed

lemma pos_from_Inl:
  "pos_from p c i = Inl e \<Longrightarrow> e = LogicError \<and> (\<forall>m. i \<le> m \<and> m < length p \<longrightarrow> p ! m \<noteq> c)"
proof (induction p c i rule: pos_from.induct)
  case (1 p c i)
  show ?case
  proof (cases "i < length p")
    case False
    with "1.prems" show ?thesis by simp
  next
    case inside: True
    with "1.prems" have ne: "p ! i \<noteq> c" by (auto split: if_splits)
    with inside "1.prems" have "pos_from p c (Suc i) = Inl e" by simp
    from "1.IH"[OF inside ne this] have
      ih: "e = LogicError" "\<forall>m. Suc i \<le> m \<and> m < length p \<longrightarrow> p ! m \<noteq> c" by auto
    have "\<forall>m. i \<le> m \<and> m < length p \<longrightarrow> p ! m \<noteq> c"
    proof (intro allI impI)
      fix m assume m: "i \<le> m \<and> m < length p"
      show "p ! m \<noteq> c"
      proof (cases "m = i")
        case True with ne show ?thesis by simp
      next
        case False with m ih(2) show ?thesis by simp
      qed
    qed
    with ih(1) show ?thesis by simp
  qed
qed

lemma pos_Inr_iff:
  "pos p c = Inr k \<longleftrightarrow>
     (\<exists>n. k = int n \<and> n < length p \<and> p ! n = c \<and> (\<forall>m<n. p ! m \<noteq> c))"
proof
  assume "pos p c = Inr k"
  from pos_from_Inr[OF this[unfolded pos_def]] show
    "\<exists>n. k = int n \<and> n < length p \<and> p ! n = c \<and> (\<forall>m<n. p ! m \<noteq> c)" by auto
next
  assume "\<exists>n. k = int n \<and> n < length p \<and> p ! n = c \<and> (\<forall>m<n. p ! m \<noteq> c)"
  then obtain n where n: "k = int n" "n < length p" "p ! n = c" "\<forall>m<n. p ! m \<noteq> c" by blast
  show "pos p c = Inr k"
  proof (cases "pos p c")
    case (Inl e)
    from pos_from_Inl[OF this[unfolded pos_def]] n(2,3) show ?thesis by auto
  next
    case (Inr k')
    from pos_from_Inr[OF this[unfolded pos_def]] obtain n' where
      n': "k' = int n'" "n' < length p" "p ! n' = c" "\<forall>m. 0 \<le> m \<and> m < n' \<longrightarrow> p ! m \<noteq> c" by auto
    have "n' = n"
    proof (rule ccontr)
      assume "n' \<noteq> n"
      then consider "n' < n" | "n < n'" by arith
      then show False
      proof cases
        case 1 with n(4) n'(3) show False by simp
      next
        case 2 with n'(4) n(3) show False by simp
      qed
    qed
    with Inr n(1) n'(1) show ?thesis by simp
  qed
qed

lemma pos_Inl_iff: "pos p c = Inl e \<longleftrightarrow> e = LogicError \<and> c \<notin> set p"
proof
  assume "pos p c = Inl e"
  from pos_from_Inl[OF this[unfolded pos_def]] show "e = LogicError \<and> c \<notin> set p"
    by (auto simp: in_set_conv_nth)
next
  assume a: "e = LogicError \<and> c \<notin> set p"
  show "pos p c = Inl e"
  proof (cases "pos p c")
    case (Inl e')
    from pos_from_Inl[OF this[unfolded pos_def]] Inl a show ?thesis by simp
  next
    case (Inr k)
    from pos_from_Inr[OF this[unfolded pos_def]] a show ?thesis by auto
  qed
qed

lemma full_permutation_set:
  assumes "full_permutation p C"
  shows "set p = {0..<C}"
proof -
  from assms have len: "length p = nat C" and d: "distinct p"
    and sub: "set p \<subseteq> {0..<C}" and C: "0 \<le> C"
    by (auto simp: full_permutation_def list_all_iff)
  have "card (set p) = nat C" using d len by (simp add: distinct_card)
  moreover have "card {0..<C} = nat C" by simp
  ultimately show ?thesis using sub by (intro card_subset_eq) auto
qed

text \<open>
  C8. \<^verbatim>\<open>pos(p, c)\<close> returns the (first) rank index \<open>i\<close> with \<open>p[i] = c\<close> whenever \<open>c\<close>
  occurs in \<open>p\<close>; it throws, and then it throws \<^verbatim>\<open>logic_error\<close>, if and only if \<open>c\<close>
  does not occur in \<open>p\<close>; so for a full permutation \<open>p\<close> of \<open>{0, ..., C - 1}\<close> and a
  candidate \<open>0 \<le> c < C\<close> the error branch is not reached.
\<close>

theorem pos_correct:
  "(c \<in> set p \<longrightarrow>
      (\<exists>i. pos p c = Inr (int i) \<and> i < length p \<and> p ! i = c \<and> (\<forall>m<i. p ! m \<noteq> c)))
   \<and> ((\<exists>e. pos p c = Inl e) \<longleftrightarrow> c \<notin> set p)
   \<and> (c \<notin> set p \<longrightarrow> pos p c = Inl LogicError)
   \<and> (full_permutation p C \<and> 0 \<le> c \<and> c < C \<longrightarrow>
        (\<exists>i. pos p c = Inr (int i) \<and> i < length p \<and> p ! i = c))"
proof (intro conjI impI)
  assume "c \<in> set p"
  then have "\<not> (\<exists>e. pos p c = Inl e)" by (simp add: pos_Inl_iff)
  then obtain k where "pos p c = Inr k" by (cases "pos p c") auto
  then show "\<exists>i. pos p c = Inr (int i) \<and> i < length p \<and> p ! i = c \<and> (\<forall>m<i. p ! m \<noteq> c)"
    using pos_Inr_iff[of p c k] by auto
next
  show "(\<exists>e. pos p c = Inl e) \<longleftrightarrow> c \<notin> set p" by (auto simp: pos_Inl_iff)
next
  assume "c \<notin> set p"
  then show "pos p c = Inl LogicError" by (simp add: pos_Inl_iff)
next
  assume a: "full_permutation p C \<and> 0 \<le> c \<and> c < C"
  then have "c \<in> set p" using full_permutation_set[of p C] by simp
  then have "\<not> (\<exists>e. pos p c = Inl e)" by (simp add: pos_Inl_iff)
  then obtain k where "pos p c = Inr k" by (cases "pos p c") auto
  then show "\<exists>i. pos p c = Inr (int i) \<and> i < length p \<and> p ! i = c"
    using pos_Inr_iff[of p c k] by auto
qed

theorem pos_correct_witness:
  "(1::int) \<in> set [2, 0, 1] \<and> (7::int) \<notin> set [2, 0, 1] \<and> full_permutation [2, 0, 1] 3
   \<and> pos [2, 0, 1] 1 = Inr 2 \<and> pos [2, 0, 1] 7 = Inl LogicError"
proof -
  have fp: "full_permutation [2, 0, 1] 3" by (simp add: full_permutation_def)
  have m: "(1::int) \<in> set [2, 0, 1]" and nm: "(7::int) \<notin> set [2, 0, 1]" by simp_all
  from pos_correct[of 1 "[2, 0, 1]" 3] m obtain i where
    i: "pos [2, 0, 1] 1 = Inr (int i)" "i < length [2, 0, 1::int]" "[2, 0, 1::int] ! i = 1"
    by blast
  have "i = 2"
  proof -
    from i(2) have "i = 0 \<or> i = 1 \<or> i = 2" by auto
    with i(3) show ?thesis by auto
  qed
  with i(1) have "pos [2, 0, 1] 1 = Inr 2" by simp
  moreover from pos_correct[of 7 "[2, 0, 1]" 3] nm have "pos [2, 0, 1] 7 = Inl LogicError" by blast
  ultimately show ?thesis using fp m nm by blast
qed

section \<open>Laws of the bounding box\<close>

text \<open>
  C7 (as the code has it). \<^verbatim>\<open>Rect::add\<close> is commutative and idempotent, and its result
  contains the box it started from and the added point. Adding a point to the
  default-constructed box gives the singleton box of the point when both coordinates
  lie between the sentinels \<open>-INF\<close> and \<open>INF\<close>, as every grid coordinate does.
\<close>

theorem Rect_add_laws:
  "Rect_add (Rect_add b ra ca) rb cb = Rect_add (Rect_add b rb cb) ra ca
   \<and> Rect_add (Rect_add b r c) r c = Rect_add b r c
   \<and> (r0 (Rect_add b r c) \<le> r0 b \<and> r1 b \<le> r1 (Rect_add b r c)
      \<and> c0 (Rect_add b r c) \<le> c0 b \<and> c1 b \<le> c1 (Rect_add b r c))
   \<and> (r0 (Rect_add b r c) \<le> r \<and> r \<le> r1 (Rect_add b r c)
      \<and> c0 (Rect_add b r c) \<le> c \<and> c \<le> c1 (Rect_add b r c))
   \<and> (- INF_int \<le> r \<and> r \<le> INF_int \<and> - INF_int \<le> c \<and> c \<le> INF_int \<longrightarrow>
        Rect_add Rect_default r c = \<lparr>r0 = r, r1 = r, c0 = c, c1 = c\<rparr>)"
  by (auto simp: Rect_add_def Rect_default_def min_def max_def)

theorem Rect_add_laws_witness:
  "(- INF_int \<le> 3 \<and> 3 \<le> INF_int \<and> - INF_int \<le> 4 \<and> 4 \<le> INF_int)
   \<and> Rect_add Rect_default 3 4 = \<lparr>r0 = 3, r1 = 3, c0 = 4, c1 = 4\<rparr>"
proof -
  have h: "- INF_int \<le> 3 \<and> 3 \<le> INF_int \<and> - INF_int \<le> 4 \<and> 4 \<le> INF_int"
    by (simp add: INF_int_def)
  with Rect_add_laws[of Rect_default 0 0 0 0 3 4] show ?thesis by blast
qed

text \<open>
  The smallest \<^verbatim>\<open>int\<close> lies below the sentinel \<open>-INF\<close>: added to the default box it
  leaves \<open>r1 = -INF\<close>, which is not the singleton box of that point.
\<close>

theorem Rect_add_default_counterexample:
  "int_value (- 2147483648) \<and> int_value 0
   \<and> Rect_add Rect_default (- 2147483648) 0
       = \<lparr>r0 = - 2147483648, r1 = - 2147483647, c0 = 0, c1 = 0\<rparr>
   \<and> Rect_add Rect_default (- 2147483648) 0
       \<noteq> \<lparr>r0 = - 2147483648, r1 = - 2147483648, c0 = 0, c1 = 0\<rparr>"
  by (simp add: int_value_def Rect_add_def Rect_default_def INF_int_def)

section \<open>The documented profile of hypothesis 2\<close>

text \<open>
  C5. On the 3 x 3 profile with five candidates given in the source, \<^verbatim>\<open>has_isolated\<close>
  returns true: the dominance box of candidate 2 is the single middle cell, which touches
  none of the four sides of the grid.
\<close>

theorem has_isolated_scenario_C:
  "has_isolated scenario_C 5 = Inr True
   \<and> get_dominance_box scenario_C 2 = Inr \<lparr>r0 = 1, r1 = 1, c0 = 1, c1 = 1\<rparr>"
  by code_simp

section \<open>Loops over the grid\<close>

lemma for_loop_cong:
  "(\<And>x s. x \<in> set xs \<Longrightarrow> f x s = h x s) \<Longrightarrow> for_loop xs f s = for_loop xs h s"
  by (induction xs arbitrary: s) (auto split: sum.splits)

lemma for_loop_append:
  "for_loop (xs @ ys) f s =
     (case for_loop xs f s of Inl e \<Rightarrow> Inl e | Inr s' \<Rightarrow> for_loop ys f s')"
  by (induction xs arbitrary: s) (auto split: sum.splits)

lemma for_loop_map: "for_loop (map k xs) f s = for_loop xs (\<lambda>x. f (k x)) s"
  by (induction xs arbitrary: s) (auto split: sum.splits)

lemma for_loop_product:
  "for_loop is (\<lambda>i. for_loop js (f i)) s = for_loop (List.product is js) (\<lambda>(i, j). f i j) s"
  by (induction "is" arbitrary: s) (auto simp: for_loop_append for_loop_map split: sum.splits)

lemma for_loop_filter_fold:
  "for_loop xs (\<lambda>x s. Inr (if P x then F x s else s)) s = Inr (fold F (filter P xs) s)"
  by (induction xs arbitrary: s) auto

lemma fold_add_voter_fields:
  "r0 (fold add_voter vs b) = fold min (map (\<lambda>v. int (fst v)) vs) (r0 b)"
  "r1 (fold add_voter vs b) = fold max (map (\<lambda>v. int (fst v)) vs) (r1 b)"
  "c0 (fold add_voter vs b) = fold min (map (\<lambda>v. int (snd v)) vs) (c0 b)"
  "c1 (fold add_voter vs b) = fold max (map (\<lambda>v. int (snd v)) vs) (c1 b)"
  by (induction vs arbitrary: b) (simp_all add: add_voter_def Rect_add_def min.commute max.commute)

lemma fold_min_Min:
  fixes a :: int
  assumes "xs \<noteq> []" and "\<forall>x\<in>set xs. x \<le> a"
  shows "fold min xs a = Min (set xs)"
proof -
  have "fold min xs a = Min (set (a # xs))" by (simp only: Min.set_eq_fold)
  also have "\<dots> = min a (Min (set xs))" using assms(1) by simp
  also have "\<dots> = Min (set xs)"
  proof -
    from assms(1) obtain x where "x \<in> set xs" by (cases xs) auto
    then have "Min (set xs) \<le> x" by simp
    moreover from \<open>x \<in> set xs\<close> assms(2) have "x \<le> a" by blast
    ultimately have "Min (set xs) \<le> a" by linarith
    then show ?thesis by simp
  qed
  finally show ?thesis .
qed

lemma fold_max_Max:
  fixes a :: int
  assumes "xs \<noteq> []" and "\<forall>x\<in>set xs. a \<le> x"
  shows "fold max xs a = Max (set xs)"
proof -
  have "fold max xs a = Max (set (a # xs))" by (simp only: Max.set_eq_fold)
  also have "\<dots> = max a (Max (set xs))" using assms(1) by simp
  also have "\<dots> = Max (set xs)"
  proof -
    from assms(1) obtain x where "x \<in> set xs" by (cases xs) auto
    then have "x \<le> Max (set xs)" by simp
    moreover from \<open>x \<in> set xs\<close> assms(2) have "a \<le> x" by blast
    ultimately have "a \<le> Max (set xs)" by linarith
    then show ?thesis by simp
  qed
  finally show ?thesis .
qed

lemma int_Min_map:
  assumes "xs \<noteq> []"
  shows "int (Min (set xs)) = Min (set (map int xs))"
  using mono_Min_commute[of int "set xs"] assms by (simp add: mono_def)

lemma int_Max_map:
  assumes "xs \<noteq> []"
  shows "int (Max (set xs)) = Max (set (map int xs))"
  using mono_Max_commute[of int "set xs"] assms by (simp add: mono_def)

lemma bounding_box_fold:
  assumes "\<forall>v\<in>set vs. int (fst v) \<le> INF_int \<and> int (snd v) \<le> INF_int"
  shows "fold add_voter vs Rect_default = bounding_box vs"
proof (cases "vs = []")
  case True
  then show ?thesis by (simp add: bounding_box_def)
next
  case False
  let ?rs = "map (\<lambda>v. int (fst v)) vs" and ?cs = "map (\<lambda>v. int (snd v)) vs"
  have ne: "?rs \<noteq> []" "?cs \<noteq> []" using False by simp_all
  have up: "\<forall>x\<in>set ?rs. x \<le> INF_int" "\<forall>x\<in>set ?cs. x \<le> INF_int" using assms by auto
  have lo: "\<forall>x\<in>set ?rs. - INF_int \<le> x" "\<forall>x\<in>set ?cs. - INF_int \<le> x"
    by (auto simp: INF_int_def)
  have e: "?rs = map int (map fst vs)" "?cs = map int (map snd vs)" by simp_all
  have ne': "map fst vs \<noteq> []" "map snd vs \<noteq> []" using False by simp_all
  have "r0 (fold add_voter vs Rect_default) = int (Min (set (map fst vs)))"
    unfolding fold_add_voter_fields int_Min_map[OF ne'(1)] e(1)[symmetric]
    using fold_min_Min[OF ne(1) up(1)] by (simp add: Rect_default_def)
  moreover have "r1 (fold add_voter vs Rect_default) = int (Max (set (map fst vs)))"
    unfolding fold_add_voter_fields int_Max_map[OF ne'(1)] e(1)[symmetric]
    using fold_max_Max[OF ne(1) lo(1)] by (simp add: Rect_default_def)
  moreover have "c0 (fold add_voter vs Rect_default) = int (Min (set (map snd vs)))"
    unfolding fold_add_voter_fields int_Min_map[OF ne'(2)] e(2)[symmetric]
    using fold_min_Min[OF ne(2) up(2)] by (simp add: Rect_default_def)
  moreover have "c1 (fold add_voter vs Rect_default) = int (Max (set (map snd vs)))"
    unfolding fold_add_voter_fields int_Max_map[OF ne'(2)] e(2)[symmetric]
    using fold_max_Max[OF ne(2) lo(2)] by (simp add: Rect_default_def)
  ultimately show ?thesis using False by (simp add: bounding_box_def)
qed

lemma for_loop_fails:
  assumes "x \<in> set xs" and "\<And>s. f x s = Inl e"
    and "\<And>y s e'. y \<in> set xs \<Longrightarrow> f y s = Inl e' \<Longrightarrow> e' = e"
  shows "for_loop xs f s = Inl e"
  using assms
proof (induction xs arbitrary: s)
  case Nil
  then show ?case by simp
next
  case (Cons y ys)
  show ?case
  proof (cases "f y s")
    case (Inl e')
    with Cons.prems(3)[of y s e'] show ?thesis by simp
  next
    case (Inr s')
    with Cons.prems(2) have "x \<noteq> y" by auto
    with Cons.prems(1) have "x \<in> set ys" by simp
    have "for_loop ys f s' = Inl e"
    proof (rule Cons.IH[OF \<open>x \<in> set ys\<close> Cons.prems(2)])
      fix z t e' assume "z \<in> set ys" "f z t = Inl e'"
      then show "e' = e" using Cons.prems(3)[of z t e'] by simp
    qed
    with Inr show ?thesis by simp
  qed
qed

lemma with_dims_rectangular:
  "rectangular g \<Longrightarrow> with_dims g body = body (length g) (length (g ! 0))"
  by (simp add: with_dims_def rectangular_def)

lemma rectangular_row:
  assumes "rectangular g" and "i < length g"
  shows "length (g ! i) = length (g ! 0)"
proof -
  from assms(1) have "\<forall>row\<in>set g. length row = length (g ! 0)"
    unfolding rectangular_def list_all_iff by blast
  with nth_mem[OF assms(2)] show ?thesis by blast
qed

lemma complete_row:
  assumes "complete_grid g" and "i < length g" and "j < length (g ! i)"
  shows "g ! i ! j \<noteq> EmptyProf"
proof -
  from assms(1) have "\<forall>row\<in>set g. \<forall>p\<in>set row. p \<noteq> EmptyProf"
    unfolding complete_grid_def list_all_iff by blast
  with nth_mem[OF assms(2)] nth_mem[OF assms(3)] show ?thesis by blast
qed

lemma voters_iff: "(i, j) \<in> set (voters g) \<longleftrightarrow> i < length g \<and> j < length (g ! 0)"
  by (auto simp: voters_def)

lemma cell_rectangular:
  assumes "rectangular g" and "(i, j) \<in> set (voters g)"
  shows "cell g i j = Inr (g ! i ! j)"
proof -
  from assms(2) have i: "i < length g" and j: "j < length (g ! 0)" by (simp_all add: voters_iff)
  from rectangular_row[OF assms(1) i] i j show ?thesis by (simp add: cell_def)
qed

lemma cell_complete:
  assumes "complete_grid g" and "(i, j) \<in> set (voters g)"
  shows "g ! i ! j \<noteq> EmptyProf"
proof -
  from assms(2) have i: "i < length g" and j: "j < length (g ! 0)" by (simp_all add: voters_iff)
  from assms(1) have "rectangular g" by (simp add: complete_grid_def)
  from rectangular_row[OF this i] j have "j < length (g ! i)" by simp
  from complete_row[OF assms(1) i this] show ?thesis .
qed

lemma not_complete_cell:
  assumes "rectangular g" and "\<not> complete_grid g"
  shows "\<exists>i j. (i, j) \<in> set (voters g) \<and> g ! i ! j = EmptyProf"
proof -
  from assms have "\<not> list_all (list_all (\<lambda>p. p \<noteq> EmptyProf)) g"
    by (simp add: complete_grid_def)
  then obtain row where row: "row \<in> set g" "\<not> list_all (\<lambda>p. p \<noteq> EmptyProf) row"
    by (auto simp: list_all_iff)
  then obtain p where p: "p \<in> set row" "p = EmptyProf" by (auto simp: list_all_iff)
  from row(1) obtain i where i: "i < length g" "g ! i = row" by (auto simp: in_set_conv_nth)
  from p(1) obtain j where j: "j < length row" "row ! j = p" by (auto simp: in_set_conv_nth)
  from rectangular_row[OF assms(1) i(1)] i(2) j(1) have "j < length (g ! 0)" by simp
  with i j p(2) show ?thesis by (auto simp: voters_iff)
qed

lemma get_dominance_box_flat:
  "rectangular g \<Longrightarrow>
     get_dominance_box g c = for_loop (voters g) (dominance_step g c) Rect_default"
proof -
  assume r: "rectangular g"
  show ?thesis
    unfolding get_dominance_box_def with_dims_rectangular[OF r] for_loop_product voters_def
    by (rule for_loop_cong) (auto simp: dominance_step_def split: sum.splits)
qed

lemma get_dominance_box_fold:
  assumes "complete_grid g"
  shows "get_dominance_box g c = Inr (fold add_voter (voters_with_top g c) Rect_default)"
proof -
  from assms have rect: "rectangular g" by (simp add: complete_grid_def)
  have "for_loop (voters g) (dominance_step g c) Rect_default =
        for_loop (voters g)
          (\<lambda>v s. Inr (if (case v of (i, j) \<Rightarrow> g ! i ! j \<noteq> EmptyProf \<and> g ! i ! j ! 0 = c)
                        then add_voter v s else s)) Rect_default"
  proof (rule for_loop_cong)
    fix v s assume v: "v \<in> set (voters g)"
    obtain i j where ij: "v = (i, j)" by (cases v)
    from cell_rectangular[OF rect v[unfolded ij]] cell_complete[OF assms v[unfolded ij]]
    show "dominance_step g c v s =
          Inr (if (case v of (i, j) \<Rightarrow> g ! i ! j \<noteq> EmptyProf \<and> g ! i ! j ! 0 = c)
               then add_voter v s else s)"
      by (simp add: ij dominance_step_def add_voter_def EmptyProf_def)
  qed
  then show ?thesis
    by (simp add: get_dominance_box_flat[OF rect] for_loop_filter_fold voters_with_top_def)
qed

lemma get_dominance_box_partial:
  assumes "rectangular g" and "\<not> complete_grid g"
  shows "get_dominance_box g c = Inl OutOfRange"
proof -
  from not_complete_cell[OF assms] obtain i j where
    v: "(i, j) \<in> set (voters g)" and e: "g ! i ! j = EmptyProf" by blast
  have "for_loop (voters g) (dominance_step g c) Rect_default = Inl OutOfRange"
  proof (rule for_loop_fails[OF v])
    fix s show "dominance_step g c (i, j) s = Inl OutOfRange"
      using cell_rectangular[OF assms(1) v] e by (simp add: dominance_step_def EmptyProf_def)
  next
    fix y s e' assume y: "y \<in> set (voters g)" and f: "dominance_step g c y s = Inl e'"
    obtain a b where ab: "y = (a, b)" by (cases y)
    from cell_rectangular[OF assms(1) y[unfolded ab]] f show "e' = OutOfRange"
      by (auto simp: ab dominance_step_def split: if_splits)
  qed
  then show ?thesis by (simp add: get_dominance_box_flat[OF assms(1)])
qed

text \<open>
  On a complete profile (with at most \<open>INF\<close> rows and columns, so that
  \<^verbatim>\<open>int N = g.size()\<close> holds them) \<^verbatim>\<open>get_dominance_box(g, c)\<close> returns the bounding box
  of exactly the voters whose most preferred candidate is \<open>c\<close>.
\<close>

lemma get_dominance_box_complete:
  assumes "complete_grid g" and "int (length g) \<le> INF_int"
    and "int (length (g ! 0)) \<le> INF_int"
  shows "get_dominance_box g c = Inr (bounding_box (voters_with_top g c))"
proof -
  have "\<forall>v\<in>set (voters_with_top g c). int (fst v) \<le> INF_int \<and> int (snd v) \<le> INF_int"
    using assms by (auto simp: voters_with_top_def voters_iff)
  from bounding_box_fold[OF this] assms(1) show ?thesis
    by (simp add: get_dominance_box_fold)
qed

lemma box_le_refl: "box_le b b"
  by (simp add: box_le_def)

lemma box_le_trans: "box_le a b \<Longrightarrow> box_le b c \<Longrightarrow> box_le a c"
  by (auto simp: box_le_def)

lemma box_le_add_voter: "box_le b (add_voter v b)"
  by (simp add: box_le_def add_voter_def Rect_add_def)

lemma add_voter_mono: "box_le b b' \<Longrightarrow> box_le (add_voter v b) (add_voter v b')"
  by (auto simp: box_le_def add_voter_def Rect_add_def)

lemma inside_add_voter: "inside v (add_voter v b)"
  by (simp add: inside_def add_voter_def Rect_add_def)

lemma inside_mono: "inside v b \<Longrightarrow> box_le b a \<Longrightarrow> inside v a"
  by (auto simp: inside_def box_le_def)

lemma do_intersect_mono:
  "do_intersect a b \<Longrightarrow> box_le a a' \<Longrightarrow> box_le b b' \<Longrightarrow> do_intersect a' b'"
  by (auto simp: do_intersect_def box_le_def split: if_splits)

lemma get_preference_bounding_box_flat:
  "get_preference_bounding_box g ca cb =
     (if length g = 0 \<or> length (g ! 0) = 0 then Inl AssertionFailed
      else for_loop (voters g) (preference_step g ca cb) Rect_default)"
proof -
  have "for_loop (List.product [0..<length g] [0..<length (g ! 0)])
          (\<lambda>(i, j) ans.
             case cell g i j of
               Inl e \<Rightarrow> Inl e
             | Inr p \<Rightarrow>
                 if p \<noteq> EmptyProf
                 then (case prefers p ca cb of
                         Inl e \<Rightarrow> Inl e
                       | Inr b \<Rightarrow> Inr (if b then Rect_add ans (int i) (int j) else ans))
                 else Inr ans) Rect_default
        = for_loop (List.product [0..<length g] [0..<length (g ! 0)])
            (preference_step g ca cb) Rect_default"
    by (rule for_loop_cong) (auto simp: preference_step_def split: sum.splits)
  then show ?thesis
    unfolding get_preference_bounding_box_def with_dims_def for_loop_product voters_def
    by simp
qed

lemma preference_step_kind: "step_kind (preference_step g ca cb) v"
  by (auto simp: step_kind_def preference_step_def add_voter_def split: sum.splits)

lemma for_loop_box:
  assumes "for_loop vs step b = Inr a" and "\<And>v. v \<in> set vs \<Longrightarrow> step_kind step v"
  shows "box_le b a \<and> (\<forall>v\<in>set vs. (\<forall>s. step v s = Inr (add_voter v s)) \<longrightarrow> inside v a)"
  using assms
proof (induction vs arbitrary: b)
  case Nil
  then show ?case by (simp add: box_le_refl)
next
  case (Cons w ws)
  from Cons.prems(1) obtain t where t: "step w b = Inr t" "for_loop ws step t = Inr a"
    by (auto split: sum.splits)
  have kinds: "\<And>v. v \<in> set ws \<Longrightarrow> step_kind step v" using Cons.prems(2) by simp
  from Cons.IH[OF t(2) kinds] have ih: "box_le t a"
    "\<forall>v\<in>set ws. (\<forall>s. step v s = Inr (add_voter v s)) \<longrightarrow> inside v a" by simp_all
  from Cons.prems(2)[of w] t(1) have "t = b \<or> t = add_voter w b"
    by (auto simp: step_kind_def)
  then have bt: "box_le b t" by (auto simp: box_le_refl box_le_add_voter)
  have "(\<forall>s. step w s = Inr (add_voter w s)) \<longrightarrow> inside w a"
  proof
    assume "\<forall>s. step w s = Inr (add_voter w s)"
    with t(1) have "t = add_voter w b" by simp
    then show "inside w a" using inside_add_voter ih(1) inside_mono by blast
  qed
  with ih bt show ?case using box_le_trans by auto
qed

lemma for_loop_rel:
  assumes "for_loop xs f s = Inr t" and "R s s'"
    and "\<And>x s s' t. x \<in> set xs \<Longrightarrow> R s s' \<Longrightarrow> f x s = Inr t \<Longrightarrow>
           (\<exists>t'. f' x s' = Inr t' \<and> R t t') \<or> (\<exists>e. f' x s' = Inl e \<and> Q e)"
  shows "(\<exists>t'. for_loop xs f' s' = Inr t' \<and> R t t') \<or> (\<exists>e. for_loop xs f' s' = Inl e \<and> Q e)"
  using assms
proof (induction xs arbitrary: s s')
  case Nil
  then show ?case by simp
next
  case (Cons x xs)
  from Cons.prems(1) obtain u where u: "f x s = Inr u" "for_loop xs f u = Inr t"
    by (auto split: sum.splits)
  from Cons.prems(3)[of x s s' u] Cons.prems(2) u(1)
  consider u' where "f' x s' = Inr u'" "R u u'" | e where "f' x s' = Inl e" "Q e" by auto
  then show ?case
  proof cases
    case 1
    have "(\<exists>t'. for_loop xs f' u' = Inr t' \<and> R t t') \<or> (\<exists>e. for_loop xs f' u' = Inl e \<and> Q e)"
    proof (rule Cons.IH[OF u(2) 1(2)])
      fix y a a' b assume "y \<in> set xs" "R a a'" "f y a = Inr b"
      then show "(\<exists>t'. f' y a' = Inr t' \<and> R b t') \<or> (\<exists>e. f' y a' = Inl e \<and> Q e)"
        using Cons.prems(3)[of y a a' b] by simp
    qed
    with 1(1) show ?thesis by simp
  next
    case 2
    then show ?thesis by simp
  qed
qed

lemma any_loop_False:
  "any_loop xs t = Inr False \<Longrightarrow> x \<in> set xs \<Longrightarrow> t x = Inr False"
  by (induction xs) (auto split: sum.splits if_splits)

lemma any_loop_True:
  "any_loop xs t = Inr True \<Longrightarrow>
     \<exists>ys x zs. xs = ys @ x # zs \<and> t x = Inr True \<and> (\<forall>y\<in>set ys. t y = Inr False)"
proof (induction xs)
  case Nil
  then show ?case by simp
next
  case (Cons a as)
  show ?case
  proof (cases "t a")
    case (Inl e)
    with Cons.prems show ?thesis by simp
  next
    case (Inr hit)
    show ?thesis
    proof (cases hit)
      case True
      with Inr have "a # as = [] @ a # as \<and> t a = Inr True \<and> (\<forall>y\<in>set []. t y = Inr False)"
        by simp
      then show ?thesis by blast
    next
      case False
      with Inr Cons.prems have "any_loop as t = Inr True" by simp
      from Cons.IH[OF this] obtain ys x zs where
        "as = ys @ x # zs" "t x = Inr True" "\<forall>y\<in>set ys. t y = Inr False" by blast
      with Inr False have "a # as = (a # ys) @ x # zs \<and> t x = Inr True
          \<and> (\<forall>y\<in>set (a # ys). t y = Inr False)" by simp
      then show ?thesis by blast
    qed
  qed
qed

lemma any_loop_prefix:
  "\<forall>y\<in>set ys. t y = Inr False \<Longrightarrow> any_loop (ys @ zs) t = any_loop zs t"
  by (induction ys) auto

lemma grid_valid_pair_hit:
  "grid_valid g C =
     (case any_loop [0..<nat C] (\<lambda>ca. any_loop [Suc ca..<nat C] (pair_hit g ca)) of
        Inl e \<Rightarrow> Inl e
      | Inr hit \<Rightarrow> Inr (\<not> hit))"
proof -
  have "pair_hit g = (\<lambda>ca cb.
          case get_preference_bounding_box g (int ca) (int cb) of
            Inl e \<Rightarrow> Inl e
          | Inr a \<Rightarrow>
              (case get_preference_bounding_box g (int cb) (int ca) of
                 Inl e \<Rightarrow> Inl e
               | Inr b \<Rightarrow> Inr (do_intersect a b)))"
    by (intro ext) (simp add: pair_hit_def)
  then show ?thesis by (simp add: grid_valid_def)
qed

lemma any_loop_rel:
  assumes "any_loop xs t = Inr h"
    and "\<And>x hx. x \<in> set xs \<Longrightarrow> t x = Inr hx \<Longrightarrow>
           (\<exists>hx'. t' x = Inr hx' \<and> (hx \<longrightarrow> hx')) \<or> (\<exists>e. t' x = Inl e \<and> Q e)"
  shows "(\<exists>h'. any_loop xs t' = Inr h' \<and> (h \<longrightarrow> h')) \<or> (\<exists>e. any_loop xs t' = Inl e \<and> Q e)"
  using assms
proof (induction xs)
  case Nil
  then show ?case by auto
next
  case (Cons x xs)
  from Cons.prems(1) obtain hx where hx: "t x = Inr hx" by (auto split: sum.splits)
  from Cons.prems(2)[of x hx] hx
  consider hx' where "t' x = Inr hx'" "hx \<longrightarrow> hx'" | e where "t' x = Inl e" "Q e" by auto
  then show ?case
  proof cases
    case 1
    show ?thesis
    proof (cases hx')
      case True
      with 1(1) show ?thesis by auto
    next
      case False
      with 1(2) have nhx: "\<not> hx" by simp
      with hx Cons.prems(1) have rest: "any_loop xs t = Inr h" by simp
      have "(\<exists>h'. any_loop xs t' = Inr h' \<and> (h \<longrightarrow> h')) \<or> (\<exists>e. any_loop xs t' = Inl e \<and> Q e)"
      proof (rule Cons.IH[OF rest])
        fix y hy assume "y \<in> set xs" "t y = Inr hy"
        then show "(\<exists>hx'. t' y = Inr hx' \<and> (hy \<longrightarrow> hx')) \<or> (\<exists>e. t' y = Inl e \<and> Q e)"
          using Cons.prems(2)[of y hy] by simp
      qed
      with 1(1) False show ?thesis by auto
    qed
  next
    case 2
    then show ?thesis by auto
  qed
qed

lemma set_cell_length: "length (set_cell g r c p) = length g"
  by (simp add: set_cell_def)

lemma set_cell_row_length: "length (set_cell g r c p ! i) = length (g ! i)"
proof (cases "r < length g")
  case True
  then show ?thesis by (cases "i = r") (simp_all add: set_cell_def)
next
  case False
  then show ?thesis by (simp add: set_cell_def not_less list_update_beyond)
qed

lemma set_cell_nth:
  "r < length g \<Longrightarrow> c < length (g ! r) \<Longrightarrow>
     set_cell g r c p ! i ! j = (if i = r \<and> j = c then p else g ! i ! j)"
  by (cases "i = r"; cases "j = c") (simp_all add: set_cell_def)

lemma voters_set_cell: "voters (set_cell g r c p) = voters g"
  by (simp add: voters_def set_cell_length set_cell_row_length)

lemma cell_set_cell:
  "r < length g \<Longrightarrow> c < length (g ! r) \<Longrightarrow>
     cell (set_cell g r c p) i j = (if i = r \<and> j = c then Inr p else cell g i j)"
  by (simp add: cell_def set_cell_length set_cell_row_length set_cell_nth)

lemma preference_step_other:
  assumes "r < length g" and "c < length (g ! r)" and "v \<noteq> (r, c)"
  shows "preference_step (set_cell g r c p) ca cb v = preference_step g ca cb v"
proof (intro ext)
  fix s
  obtain i j where v: "v = (i, j)" by (cases v)
  with assms(3) have "\<not> (i = r \<and> j = c)" by simp
  then have "cell (set_cell g r c p) i j = cell g i j"
    by (auto simp: cell_set_cell[OF assms(1,2)])
  then show "preference_step (set_cell g r c p) ca cb v s = preference_step g ca cb v s"
    by (simp add: preference_step_def v)
qed

lemma preference_step_unassigned:
  assumes "r < length g" and "c < length (g ! r)" and "g ! r ! c = EmptyProf"
  shows "preference_step g ca cb (r, c) s = Inr s"
  using assms by (simp add: preference_step_def cell_def)

lemma prefers_Inl:
  "prefers p ca cb = Inl e \<Longrightarrow> e = LogicError \<and> \<not> (ca \<in> set p \<and> cb \<in> set p)"
  by (auto simp: prefers_def pos_Inl_iff split: sum.splits)

lemma preference_step_assigned_Inl:
  assumes "r < length g" and "c < length (g ! r)"
    and "preference_step (set_cell g r c p) ca cb (r, c) s = Inl e"
  shows "e = LogicError \<and> \<not> (ca \<in> set p \<and> cb \<in> set p)"
  using assms(3) prefers_Inl[of p ca cb e]
  by (auto simp: preference_step_def cell_set_cell[OF assms(1,2)] split: if_splits sum.splits)

lemma get_preference_bounding_box_mono:
  assumes r: "r < length g" and c: "c < length (g ! r)" and e: "g ! r ! c = EmptyProf"
    and box: "get_preference_bounding_box g ca cb = Inr a"
  shows "(\<exists>a'. get_preference_bounding_box (set_cell g r c p) ca cb = Inr a' \<and> box_le a a')
       \<or> (\<exists>e. get_preference_bounding_box (set_cell g r c p) ca cb = Inl e
              \<and> e = LogicError \<and> \<not> (ca \<in> set p \<and> cb \<in> set p))"
proof -
  let ?g' = "set_cell g r c p"
  from box have dims: "\<not> (length g = 0 \<or> length (g ! 0) = 0)"
    and loop: "for_loop (voters g) (preference_step g ca cb) Rect_default = Inr a"
    by (auto simp: get_preference_bounding_box_flat split: if_splits)
  have "(\<exists>t'. for_loop (voters g) (preference_step ?g' ca cb) Rect_default = Inr t' \<and> box_le a t')
      \<or> (\<exists>e. for_loop (voters g) (preference_step ?g' ca cb) Rect_default = Inl e
             \<and> e = LogicError \<and> \<not> (ca \<in> set p \<and> cb \<in> set p))"
  proof (rule for_loop_rel[where R = box_le, OF loop box_le_refl])
    fix v s s' t
    assume ss: "box_le s s'" and st: "preference_step g ca cb v s = Inr t"
    show "(\<exists>t'. preference_step ?g' ca cb v s' = Inr t' \<and> box_le t t')
        \<or> (\<exists>e. preference_step ?g' ca cb v s' = Inl e
               \<and> e = LogicError \<and> \<not> (ca \<in> set p \<and> cb \<in> set p))"
    proof (cases "v = (r, c)")
      case False
      note same = preference_step_other[OF r c False, of p ca cb]
      from preference_step_kind[of g ca cb v] st
      consider "\<forall>u. preference_step g ca cb v u = Inr u"
        | "\<forall>u. preference_step g ca cb v u = Inr (add_voter v u)"
        by (auto simp: step_kind_def)
      then show ?thesis
      proof cases
        case 1
        with st have "t = s" by simp
        with 1 ss same show ?thesis by simp
      next
        case 2
        with st have "t = add_voter v s" by simp
        with 2 add_voter_mono[OF ss, of v] same show ?thesis by simp
      qed
    next
      case True
      from st preference_step_unassigned[OF r c e, of ca cb s] True have ts: "t = s" by simp
      from preference_step_kind[of ?g' ca cb v]
      consider "preference_step ?g' ca cb v s' = Inr s'"
        | "preference_step ?g' ca cb v s' = Inr (add_voter v s')"
        | e' where "preference_step ?g' ca cb v s' = Inl e'"
        by (auto simp: step_kind_def)
      then show ?thesis
      proof cases
        case 1
        with ts ss show ?thesis by simp
      next
        case 2
        from box_le_trans[OF ss box_le_add_voter[of s' v]] 2 ts show ?thesis by simp
      next
        case 3
        from preference_step_assigned_Inl[OF r c 3[unfolded True]] 3 show ?thesis by simp
      qed
    qed
  qed
  moreover have "get_preference_bounding_box ?g' ca cb =
      for_loop (voters g) (preference_step ?g' ca cb) Rect_default"
    using dims by (simp add: get_preference_bounding_box_flat voters_set_cell set_cell_length
        set_cell_row_length)
  ultimately show ?thesis by simp
qed

lemma pair_hit_mono:
  assumes r: "r < length g" and c: "c < length (g ! r)" and e: "g ! r ! c = EmptyProf"
    and cb: "cb < nat C"  and ca: "ca < cb"
    and hit: "pair_hit g ca cb = Inr h"
  shows "(\<exists>h'. pair_hit (set_cell g r c p) ca cb = Inr h' \<and> (h \<longrightarrow> h'))
       \<or> (\<exists>e. pair_hit (set_cell g r c p) ca cb = Inl e \<and> lacks_candidate p C e)"
proof -
  let ?g' = "set_cell g r c p"
  from hit obtain a b where a: "get_preference_bounding_box g (int ca) (int cb) = Inr a"
    and b: "get_preference_bounding_box g (int cb) (int ca) = Inr b"
    and h: "h = do_intersect a b"
    by (auto simp: pair_hit_def split: sum.splits)
  from cb have cbC: "int cb < C" by (simp add: zless_nat_eq_int_zless)
  with ca have caC: "int ca < C" by simp
  have lack: "\<not> (int ca \<in> set p \<and> int cb \<in> set p) \<Longrightarrow> lacks_candidate p C LogicError"
  proof -
    assume "\<not> (int ca \<in> set p \<and> int cb \<in> set p)"
    then consider "int ca \<notin> set p" | "int cb \<notin> set p" by blast
    then have "\<exists>k. 0 \<le> k \<and> k < C \<and> k \<notin> set p"
    proof cases
      case 1
      with caC show ?thesis by (intro exI[of _ "int ca"]) simp
    next
      case 2
      with cbC show ?thesis by (intro exI[of _ "int cb"]) simp
    qed
    then show ?thesis unfolding lacks_candidate_def by blast
  qed
  from get_preference_bounding_box_mono[OF r c e a, of p]
  consider a' where "get_preference_bounding_box ?g' (int ca) (int cb) = Inr a'" "box_le a a'"
    | "get_preference_bounding_box ?g' (int ca) (int cb) = Inl LogicError"
      "\<not> (int ca \<in> set p \<and> int cb \<in> set p)" by auto
  then show ?thesis
  proof cases
    case 1
    from get_preference_bounding_box_mono[OF r c e b, of p]
    consider b' where "get_preference_bounding_box ?g' (int cb) (int ca) = Inr b'" "box_le b b'"
      | "get_preference_bounding_box ?g' (int cb) (int ca) = Inl LogicError"
        "\<not> (int cb \<in> set p \<and> int ca \<in> set p)" by auto
    then show ?thesis
    proof cases
      case b1: 1
      from do_intersect_mono[OF _ 1(2) b1(2)] h have "h \<longrightarrow> do_intersect a' b'" by simp
      with 1(1) b1(1) show ?thesis by (auto simp: pair_hit_def)
    next
      case 2
      with 1(1) lack show ?thesis by (auto simp: pair_hit_def)
    qed
  next
    case 2
    with lack show ?thesis by (auto simp: pair_hit_def)
  qed
qed

text \<open>
  C1. If \<^verbatim>\<open>grid_valid(g, C)\<close> returns false and a voter of \<open>g\<close> is unassigned, then
  \<^verbatim>\<open>grid_valid\<close> does not return true on the profile that assigns this voter a list \<open>p\<close>,
  whatever \<open>p\<close> is; and when \<open>p\<close> is a preference list (a full permutation of the
  candidates) it returns false again. So a failing partial profile has no passing
  extension by one more voter.
\<close>

theorem grid_valid_monotone:
  assumes "grid_valid g C = Inr False" and "r < length g" and "c < length (g ! r)"
    and "g ! r ! c = EmptyProf"
  shows "grid_valid (set_cell g r c p) C \<noteq> Inr True
       \<and> (full_permutation p C \<longrightarrow> grid_valid (set_cell g r c p) C = Inr False)"
proof -
  let ?g' = "set_cell g r c p"
  let ?inner = "\<lambda>g ca. any_loop [Suc ca..<nat C] (pair_hit g ca)"
  from assms(1) have outer: "any_loop [0..<nat C] (?inner g) = Inr True"
    by (auto simp: grid_valid_pair_hit split: sum.splits)
  have "(\<exists>h'. any_loop [0..<nat C] (?inner ?g') = Inr h' \<and> (True \<longrightarrow> h'))
      \<or> (\<exists>e. any_loop [0..<nat C] (?inner ?g') = Inl e \<and> lacks_candidate p C e)"
  proof (rule any_loop_rel[OF outer])
    fix ca h assume "ca \<in> set [0..<nat C]" and inner: "?inner g ca = Inr h"
    show "(\<exists>h'. ?inner ?g' ca = Inr h' \<and> (h \<longrightarrow> h'))
        \<or> (\<exists>e. ?inner ?g' ca = Inl e \<and> lacks_candidate p C e)"
    proof (rule any_loop_rel[OF inner])
      fix cb hx assume "cb \<in> set [Suc ca..<nat C]" and "pair_hit g ca cb = Inr hx"
      then show "(\<exists>hx'. pair_hit ?g' ca cb = Inr hx' \<and> (hx \<longrightarrow> hx'))
          \<or> (\<exists>e. pair_hit ?g' ca cb = Inl e \<and> lacks_candidate p C e)"
        using pair_hit_mono[OF assms(2,3,4), of cb C ca hx p] by auto
    qed
  qed
  then consider "any_loop [0..<nat C] (?inner ?g') = Inr True"
    | e where "any_loop [0..<nat C] (?inner ?g') = Inl e" "lacks_candidate p C e" by auto
  then show ?thesis
  proof cases
    case 1
    then show ?thesis by (simp add: grid_valid_pair_hit)
  next
    case 2
    from 2(2) have "\<not> full_permutation p C"
      using full_permutation_set[of p C] by (auto simp: lacks_candidate_def)
    with 2(1) show ?thesis by (simp add: grid_valid_pair_hit)
  qed
qed

lemma fold_min_in: "fold min xs (a::int) \<in> set (a # xs)"
proof -
  have "fold min xs a = Min (set (a # xs))" by (simp only: Min.set_eq_fold)
  moreover have "Min (set (a # xs)) \<in> set (a # xs)" by (rule Min_in) simp_all
  ultimately show ?thesis by simp
qed

lemma fold_max_in: "fold max xs (a::int) \<in> set (a # xs)"
proof -
  have "fold max xs a = Max (set (a # xs))" by (simp only: Max.set_eq_fold)
  moreover have "Max (set (a # xs)) \<in> set (a # xs)" by (rule Max_in) simp_all
  ultimately show ?thesis by simp
qed

lemma fold_min_le: "x \<in> set (a # xs) \<Longrightarrow> fold min xs (a::int) \<le> x"
proof -
  assume x: "x \<in> set (a # xs)"
  have "fold min xs a = Min (set (a # xs))" by (simp only: Min.set_eq_fold)
  moreover have "Min (set (a # xs)) \<le> x" using x by (intro Min_le) simp_all
  ultimately show ?thesis by simp
qed

lemma fold_max_ge: "x \<in> set (a # xs) \<Longrightarrow> x \<le> fold max xs (a::int)"
proof -
  assume x: "x \<in> set (a # xs)"
  have "fold max xs a = Max (set (a # xs))" by (simp only: Max.set_eq_fold)
  moreover have "x \<le> Max (set (a # xs))" using x by (intro Max_ge) simp_all
  ultimately show ?thesis by simp
qed

lemma in_Cons_map_cases: "x \<in> set (a # map f vs) \<Longrightarrow> x \<noteq> a \<Longrightarrow> \<exists>v\<in>set vs. f v = x"
  by auto

lemma in_Cons_map: "v \<in> set vs \<Longrightarrow> f v \<in> set (a # map f vs)"
  by simp

lemma voters_with_top_iff:
  "v \<in> set (voters_with_top g k) \<longleftrightarrow>
     v \<in> set (voters g) \<and> g ! fst v ! snd v \<noteq> EmptyProf \<and> g ! fst v ! snd v ! 0 = k"
  by (cases v) (simp add: voters_with_top_def)

text \<open>A box computed by the dominance loop touches a voter on each of its four sides.\<close>

lemma dominance_box_sides:
  assumes "complete_grid g" and "get_dominance_box g k = Inr b"
  shows "r0 b \<noteq> INF_int \<Longrightarrow> \<exists>v\<in>set (voters_with_top g k). int (fst v) = r0 b"
    and "r1 b \<noteq> - INF_int \<Longrightarrow> \<exists>v\<in>set (voters_with_top g k). int (fst v) = r1 b"
    and "c0 b \<noteq> INF_int \<Longrightarrow> \<exists>v\<in>set (voters_with_top g k). int (snd v) = c0 b"
    and "c1 b \<noteq> - INF_int \<Longrightarrow> \<exists>v\<in>set (voters_with_top g k). int (snd v) = c1 b"
proof -
  let ?vs = "voters_with_top g k"
  from assms have b: "b = fold add_voter ?vs Rect_default" by (simp add: get_dominance_box_fold)
  have f: "r0 b = fold min (map (\<lambda>v. int (fst v)) ?vs) INF_int"
    "r1 b = fold max (map (\<lambda>v. int (fst v)) ?vs) (- INF_int)"
    "c0 b = fold min (map (\<lambda>v. int (snd v)) ?vs) INF_int"
    "c1 b = fold max (map (\<lambda>v. int (snd v)) ?vs) (- INF_int)"
    unfolding b fold_add_voter_fields by (simp_all add: Rect_default_def)
  show "r0 b \<noteq> INF_int \<Longrightarrow> \<exists>v\<in>set ?vs. int (fst v) = r0 b"
  proof -
    assume ne: "r0 b \<noteq> INF_int"
    have "r0 b \<in> set (INF_int # map (\<lambda>v. int (fst v)) ?vs)" unfolding f(1) by (rule fold_min_in)
    from in_Cons_map_cases[OF this ne] show ?thesis .
  qed
  show "r1 b \<noteq> - INF_int \<Longrightarrow> \<exists>v\<in>set ?vs. int (fst v) = r1 b"
  proof -
    assume ne: "r1 b \<noteq> - INF_int"
    have "r1 b \<in> set (- INF_int # map (\<lambda>v. int (fst v)) ?vs)" unfolding f(2) by (rule fold_max_in)
    from in_Cons_map_cases[OF this ne] show ?thesis .
  qed
  show "c0 b \<noteq> INF_int \<Longrightarrow> \<exists>v\<in>set ?vs. int (snd v) = c0 b"
  proof -
    assume ne: "c0 b \<noteq> INF_int"
    have "c0 b \<in> set (INF_int # map (\<lambda>v. int (snd v)) ?vs)" unfolding f(3) by (rule fold_min_in)
    from in_Cons_map_cases[OF this ne] show ?thesis .
  qed
  show "c1 b \<noteq> - INF_int \<Longrightarrow> \<exists>v\<in>set ?vs. int (snd v) = c1 b"
  proof -
    assume ne: "c1 b \<noteq> - INF_int"
    have "c1 b \<in> set (- INF_int # map (\<lambda>v. int (snd v)) ?vs)" unfolding f(4) by (rule fold_max_in)
    from in_Cons_map_cases[OF this ne] show ?thesis .
  qed
qed

lemma top_everywhere_iff:
  assumes "rectangular g"
  shows "top_everywhere g k \<longleftrightarrow> (\<forall>v\<in>set (voters g). g ! fst v ! snd v ! 0 = k)"
proof
  assume t: "top_everywhere g k"
  show "\<forall>v\<in>set (voters g). g ! fst v ! snd v ! 0 = k"
  proof
    fix v assume v: "v \<in> set (voters g)"
    obtain a b where ab: "v = (a, b)" by (cases v)
    from v have i: "fst v < length g" and j: "snd v < length (g ! 0)"
      unfolding ab by (simp_all add: voters_iff)
    from rectangular_row[OF assms i] j have j': "snd v < length (g ! fst v)" by simp
    from t have "\<forall>row\<in>set g. \<forall>p\<in>set row. p ! 0 = k"
      unfolding top_everywhere_def list_all_iff by blast
    with nth_mem[OF i] nth_mem[OF j'] show "g ! fst v ! snd v ! 0 = k" by blast
  qed
next
  assume a: "\<forall>v\<in>set (voters g). g ! fst v ! snd v ! 0 = k"
  have "\<forall>row\<in>set g. \<forall>p\<in>set row. p ! 0 = k"
  proof (intro ballI)
    fix row p assume "row \<in> set g" "p \<in> set row"
    then obtain i j where i: "i < length g" "g ! i = row" and j: "j < length row" "row ! j = p"
      by (auto simp: in_set_conv_nth)
    from rectangular_row[OF assms i(1)] i(2) j(1) have "j < length (g ! 0)" by simp
    with i(1) have "(i, j) \<in> set (voters g)" by (simp add: voters_iff)
    from bspec[OF a this] have "g ! i ! j ! 0 = k" by simp
    with i(2) j(2) show "p ! 0 = k" by simp
  qed
  then show "top_everywhere g k" unfolding top_everywhere_def list_all_iff by blast
qed

lemma is_monodominated_all_top:
  assumes c: "complete_grid g" and t: "top_everywhere g 0"
  shows "is_monodominated g = Inr True"
proof -
  from c have rect: "rectangular g" by (simp add: complete_grid_def)
  then have N: "0 < length g" and M: "0 < length (g ! 0)" by (simp_all add: rectangular_def)
  let ?N = "length g" and ?M = "length (g ! 0)"
  let ?rows = "map (\<lambda>v. int (fst v)) (voters g)" and ?cols = "map (\<lambda>v. int (snd v)) (voters g)"
  have "voters_with_top g 0 = filter (\<lambda>v. True) (voters g)"
    unfolding voters_with_top_def
  proof (rule filter_cong[OF refl])
    fix v assume v: "v \<in> set (voters g)"
    obtain i j where ij: "v = (i, j)" by (cases v)
    from cell_complete[OF c v[unfolded ij]] t[unfolded top_everywhere_iff[OF rect]] v ij
    show "(case v of (i, j) \<Rightarrow> g ! i ! j \<noteq> EmptyProf \<and> g ! i ! j ! 0 = 0) = True" by force
  qed
  then have vs: "voters_with_top g 0 = voters g" by simp
  define b where "b = fold add_voter (voters g) Rect_default"
  have box: "get_dominance_box g 0 = Inr b" by (simp add: get_dominance_box_fold[OF c] vs b_def)
  have f: "r0 b = fold min ?rows INF_int" "r1 b = fold max ?rows (- INF_int)"
    "c0 b = fold min ?cols INF_int" "c1 b = fold max ?cols (- INF_int)"
    unfolding b_def fold_add_voter_fields by (simp_all add: Rect_default_def)
  have first: "(0, 0) \<in> set (voters g)" and lastr: "(?N - 1, 0) \<in> set (voters g)"
    and lastc: "(0, ?M - 1) \<in> set (voters g)" using N M by (simp_all add: voters_iff)
  have rows: "\<forall>x\<in>set (INF_int # ?rows). 0 \<le> x" "\<forall>x\<in>set (- INF_int # ?rows). x \<le> int ?N - 1"
    and cols: "\<forall>x\<in>set (INF_int # ?cols). 0 \<le> x" "\<forall>x\<in>set (- INF_int # ?cols). x \<le> int ?M - 1"
    using N M by (auto simp: voters_iff INF_int_def)
  have eN: "int (?N - 1) = int ?N - 1" using N by (cases "length g") simp_all
  have eM: "int (?M - 1) = int ?M - 1" using M by (cases "length (g ! 0)") simp_all
  have "r0 b = 0"
  proof -
    from in_Cons_map[OF first, of "\<lambda>v. int (fst v)" INF_int]
    have "0 \<in> set (INF_int # ?rows)" by simp
    from fold_min_le[OF this] have "r0 b \<le> 0" by (simp only: f)
    moreover from fold_min_in[of ?rows INF_int] rows(1) have "0 \<le> r0 b"
      unfolding f by blast
    ultimately show ?thesis by simp
  qed
  moreover have "c0 b = 0"
  proof -
    from in_Cons_map[OF first, of "\<lambda>v. int (snd v)" INF_int]
    have "0 \<in> set (INF_int # ?cols)" by simp
    from fold_min_le[OF this] have "c0 b \<le> 0" by (simp only: f)
    moreover from fold_min_in[of ?cols INF_int] cols(1) have "0 \<le> c0 b"
      unfolding f by blast
    ultimately show ?thesis by simp
  qed
  moreover have "r1 b = int ?N - 1"
  proof -
    from in_Cons_map[OF lastr, of "\<lambda>v. int (fst v)" "- INF_int"]
    have "int ?N - 1 \<in> set (- INF_int # ?rows)" by (simp only: fst_conv eN)
    from fold_max_ge[OF this] have "int ?N - 1 \<le> r1 b" by (simp only: f)
    moreover from fold_max_in[of ?rows "- INF_int"] rows(2) have "r1 b \<le> int ?N - 1"
      unfolding f by blast
    ultimately show ?thesis by simp
  qed
  moreover have "c1 b = int ?M - 1"
  proof -
    from in_Cons_map[OF lastc, of "\<lambda>v. int (snd v)" "- INF_int"]
    have "int ?M - 1 \<in> set (- INF_int # ?cols)" by (simp only: snd_conv eM)
    from fold_max_ge[OF this] have "int ?M - 1 \<le> c1 b" by (simp only: f)
    moreover from fold_max_in[of ?cols "- INF_int"] cols(2) have "c1 b \<le> int ?M - 1"
      unfolding f by blast
    ultimately show ?thesis by simp
  qed
  ultimately show ?thesis
    using rect box by (simp add: is_monodominated_def with_dims_rectangular)
qed

lemma prefers_top:
  assumes "p \<noteq> []" and "y \<in> set p" and "y \<noteq> p ! 0"
  shows "prefers p (p ! 0) y = Inr True"
proof -
  from assms(1) have "pos p (p ! 0) = Inr 0" by (simp add: pos_Inr_iff)
  moreover from assms(2) obtain k where k: "pos p y = Inr k"
    by (cases "pos p y") (auto simp: pos_Inl_iff)
  moreover have "0 < k"
  proof -
    from k obtain n where n: "k = int n" "p ! n = y" by (auto simp: pos_Inr_iff)
    have "n \<noteq> 0"
    proof
      assume "n = 0"
      with n(2) assms(3) show False by simp
    qed
    with n(1) show ?thesis by simp
  qed
  ultimately show ?thesis by (simp add: prefers_def)
qed

lemma preference_step_prefers:
  assumes "rectangular g" and "v \<in> set (voters g)" and "g ! fst v ! snd v \<noteq> EmptyProf"
    and "prefers (g ! fst v ! snd v) ca cb = Inr True"
  shows "preference_step g ca cb v s = Inr (add_voter v s)"
proof -
  obtain i j where v: "v = (i, j)" by (cases v)
  from cell_rectangular[OF assms(1) assms(2)[unfolded v]] assms(3,4) show ?thesis
    by (simp add: preference_step_def add_voter_def v)
qed

lemma cell_full_permutation:
  assumes "list_all (list_all (\<lambda>p. full_permutation p C)) g" and "i < length g"
    and "j < length (g ! i)"
  shows "full_permutation (g ! i ! j) C"
proof -
  from assms(1) have "\<forall>row\<in>set g. \<forall>p\<in>set row. full_permutation p C"
    unfolding list_all_iff by blast
  with nth_mem[OF assms(2)] nth_mem[OF assms(3)] show ?thesis by blast
qed

lemma grid_valid_pair:
  assumes "grid_valid g C = Inr True" and "ca < cb" and "cb < nat C"
  shows "pair_hit g ca cb = Inr False"
proof -
  from assms(1) have "any_loop [0..<nat C] (\<lambda>ca. any_loop [Suc ca..<nat C] (pair_hit g ca)) = Inr False"
    by (auto simp: grid_valid_pair_hit split: sum.splits)
  from any_loop_False[OF this, of ca] assms(2,3)
  have "any_loop [Suc ca..<nat C] (pair_hit g ca) = Inr False" by simp
  from any_loop_False[OF this, of cb] assms(2,3) show ?thesis by simp
qed

lemma is_monodominated_valid:
  assumes c: "complete_grid g" and fp: "list_all (list_all (\<lambda>p. full_permutation p C)) g"
    and valid: "grid_valid g C = Inr True" and mono: "is_monodominated g = Inr True"
  shows "top_everywhere g 0"
proof -
  from c have rect: "rectangular g" by (simp add: complete_grid_def)
  then have N: "0 < length g" and M: "0 < length (g ! 0)" by (simp_all add: rectangular_def)
  from mono rect obtain b where box: "get_dominance_box g 0 = Inr b"
    and fields: "r0 b = 0" "c0 b = 0" "r1 b = int (length g) - 1" "c1 b = int (length (g ! 0)) - 1"
    by (auto simp: is_monodominated_def with_dims_rectangular split: sum.splits)
  from fields N M have ne: "r0 b \<noteq> INF_int" "r1 b \<noteq> - INF_int" "c0 b \<noteq> INF_int" "c1 b \<noteq> - INF_int"
    by (simp_all add: INF_int_def)
  from dominance_box_sides[OF c box] ne fields obtain v1 v2 v3 v4 where
    v1: "v1 \<in> set (voters_with_top g 0)" "int (fst v1) = 0" and
    v2: "v2 \<in> set (voters_with_top g 0)" "int (fst v2) = int (length g) - 1" and
    v3: "v3 \<in> set (voters_with_top g 0)" "int (snd v3) = 0" and
    v4: "v4 \<in> set (voters_with_top g 0)" "int (snd v4) = int (length (g ! 0)) - 1"
    by metis
  have perm: "full_permutation (g ! fst v ! snd v) C" if "v \<in> set (voters g)" for v
  proof -
    obtain i j where ij: "v = (i, j)" by (cases v)
    from that have i: "i < length g" and j: "j < length (g ! 0)" by (simp_all add: ij voters_iff)
    from rectangular_row[OF rect i] j have "j < length (g ! i)" by simp
    from cell_full_permutation[OF fp i this] show ?thesis by (simp add: ij)
  qed
  have "\<forall>w\<in>set (voters g). g ! fst w ! snd w ! 0 = 0"
  proof (rule ccontr)
    assume "\<not> (\<forall>w\<in>set (voters g). g ! fst w ! snd w ! 0 = 0)"
    then obtain w where w: "w \<in> set (voters g)" and top: "g ! fst w ! snd w ! 0 \<noteq> 0" by blast
    define q where "q = g ! fst w ! snd w"
    define k where "k = q ! 0"
    have qne: "q \<noteq> []"
      using cell_complete[OF c, of "fst w" "snd w"] w by (simp add: q_def EmptyProf_def)
    from perm[OF w] have qp: "full_permutation q C" by (simp add: q_def)
    from qne have "k \<in> set q" by (simp add: k_def)
    with full_permutation_set[OF qp] have kr: "0 \<le> k" "k < C" by simp_all
    from top have k0: "k \<noteq> 0" by (simp add: k_def q_def)
    with kr have kpos: "0 < k" by simp
    from kpos kr(2) have "pair_hit g 0 (nat k) = Inr False"
      by (intro grid_valid_pair[OF valid]) simp_all
    with kpos obtain a b' where a: "get_preference_bounding_box g 0 k = Inr a"
      and b': "get_preference_bounding_box g k 0 = Inr b'" and dis: "\<not> do_intersect a b'"
      by (auto simp: pair_hit_def split: sum.splits)
    from a have la: "for_loop (voters g) (preference_step g 0 k) Rect_default = Inr a"
      by (auto simp: get_preference_bounding_box_flat split: if_splits)
    from b' have lb: "for_loop (voters g) (preference_step g k 0) Rect_default = Inr b'"
      by (auto simp: get_preference_bounding_box_flat split: if_splits)
    have in_a: "inside v a" if "v \<in> set (voters_with_top g 0)" for v
    proof -
      from that have v: "v \<in> set (voters g)" and vne: "g ! fst v ! snd v \<noteq> EmptyProf"
        and vtop: "g ! fst v ! snd v ! 0 = 0" by (simp_all add: voters_with_top_iff)
      from full_permutation_set[OF perm[OF v]] kr have "k \<in> set (g ! fst v ! snd v)" by simp
      from prefers_top[OF vne[unfolded EmptyProf_def] this] k0 vtop
      have "prefers (g ! fst v ! snd v) 0 k = Inr True" by simp
      from preference_step_prefers[OF rect v vne this]
      have "\<forall>s. preference_step g 0 k v s = Inr (add_voter v s)" by simp
      with for_loop_box[OF la preference_step_kind] v show ?thesis by blast
    qed
    have in_b: "inside w b'"
    proof -
      from full_permutation_set[OF qp] kpos kr have "0 \<in> set q" by simp
      from prefers_top[OF qne this] k0 have "prefers q k 0 = Inr True" by (simp add: k_def)
      with preference_step_prefers[OF rect w, of k 0] qne
      have "\<forall>s. preference_step g k 0 w s = Inr (add_voter w s)" by (simp add: q_def EmptyProf_def)
      with for_loop_box[OF lb preference_step_kind] w show ?thesis by blast
    qed
    obtain i j where ij: "w = (i, j)" by (cases w)
    from w have wi: "int i \<le> int (length g) - 1" and wj: "int j \<le> int (length (g ! 0)) - 1"
      by (simp_all add: ij voters_iff)
    from in_a[OF v1(1)] in_a[OF v2(1)] in_a[OF v3(1)] in_a[OF v4(1)] v1(2) v2(2) v3(2) v4(2)
    have "r0 a \<le> 0" "int (length g) - 1 \<le> r1 a" "c0 a \<le> 0" "int (length (g ! 0)) - 1 \<le> c1 a"
      by (simp_all add: inside_def)
    moreover from in_b have "r0 b' \<le> int i" "int i \<le> r1 b'" "c0 b' \<le> int j" "int j \<le> c1 b'"
      by (simp_all add: inside_def ij)
    ultimately have "do_intersect a b'" using wi wj by (simp add: do_intersect_def)
    with dis show False by simp
  qed
  then show ?thesis by (simp add: top_everywhere_iff[OF rect])
qed

text \<open>
  C2 (as the code has it). On a complete profile where every voter's most preferred
  candidate is 0, \<^verbatim>\<open>is_monodominated\<close> returns true. On a complete profile of full
  permutations that passes \<^verbatim>\<open>grid_valid\<close> (the only profiles the search hands to it),
  \<^verbatim>\<open>is_monodominated\<close> returns true if and only if every voter's most preferred
  candidate is 0.
\<close>

theorem is_monodominated_iff_top:
  "(complete_grid g \<and> top_everywhere g 0 \<longrightarrow> is_monodominated g = Inr True)
   \<and> (complete_grid g \<and> list_all (list_all (\<lambda>p. full_permutation p C)) g
        \<and> grid_valid g C = Inr True \<longrightarrow> is_monodominated g = Inr (top_everywhere g 0))"
proof (intro conjI impI)
  assume "complete_grid g \<and> top_everywhere g 0"
  then show "is_monodominated g = Inr True" by (simp add: is_monodominated_all_top)
next
  assume a: "complete_grid g \<and> list_all (list_all (\<lambda>p. full_permutation p C)) g
        \<and> grid_valid g C = Inr True"
  then have "rectangular g" by (simp add: complete_grid_def)
  with a obtain b where b: "is_monodominated g = Inr b"
    by (auto simp: is_monodominated_def with_dims_rectangular get_dominance_box_fold)
  show "is_monodominated g = Inr (top_everywhere g 0)"
  proof (cases b)
    case True
    with a b is_monodominated_valid[of g C] show ?thesis by simp
  next
    case False
    with a b is_monodominated_all_top[of g] show ?thesis by auto
  qed
qed

theorem is_monodominated_iff_top_witness:
  "complete_grid [[[0, 1], [0, 1]]] \<and> top_everywhere [[[0, 1], [0, 1]]] 0
   \<and> is_monodominated [[[0, 1], [0, 1]]] = Inr True
   \<and> complete_grid [[[0, 1], [1, 0]]]
   \<and> list_all (list_all (\<lambda>p. full_permutation p 2)) [[[0, 1], [1, 0]]]
   \<and> grid_valid [[[0, 1], [1, 0]]] 2 = Inr True
   \<and> is_monodominated [[[0, 1], [1, 0]]] = Inr False"
proof -
  have h1: "complete_grid [[[0, 1], [0, 1]]] \<and> top_everywhere [[[0, 1], [0, 1]]] 0"
    by code_simp
  have h2: "complete_grid [[[0, 1], [1, 0]]]
      \<and> list_all (list_all (\<lambda>p. full_permutation p 2)) [[[0, 1], [1, 0]]]
      \<and> grid_valid [[[0, 1], [1, 0]]] 2 = Inr True" by code_simp
  have h3: "\<not> top_everywhere [[[0, 1], [1, 0]]] 0" by code_simp
  from is_monodominated_iff_top[of "[[[0, 1], [0, 1]]]" 2] h1
  have "is_monodominated [[[0, 1], [0, 1]]] = Inr True" by blast
  moreover from is_monodominated_iff_top[of "[[[0, 1], [1, 0]]]" 2] h2 h3
  have "is_monodominated [[[0, 1], [1, 0]]] = Inr False" by simp
  ultimately show ?thesis using h1 h2 by blast
qed

text \<open>
  Without \<^verbatim>\<open>grid_valid\<close> the test is too weak: on the checkerboard profile voter (0, 0)
  holds the identity ranking, the dominance box of candidate 0 spans the grid and
  \<^verbatim>\<open>is_monodominated\<close> returns true, although voter (0, 1) prefers candidate 1.
\<close>

theorem is_monodominated_counterexample:
  "complete_grid checkerboard \<and> checkerboard ! 0 ! 0 = iota 2
   \<and> is_monodominated checkerboard = Inr True
   \<and> checkerboard ! 0 ! 1 ! 0 = 1 \<and> \<not> top_everywhere checkerboard 0"
  by code_simp

theorem grid_valid_monotone_witness:
  "grid_valid [[[0, 1], [1, 0], [0, 1], []]] 2 = Inr False
   \<and> [[[0, 1], [1, 0], [0, 1], []]] ! 0 ! 3 = EmptyProf
   \<and> full_permutation [1, 0] 2
   \<and> grid_valid (set_cell [[[0, 1], [1, 0], [0, 1], []]] 0 3 [1, 0]) 2 = Inr False"
proof -
  have h1: "grid_valid [[[0, 1], [1, 0], [0, 1], []]] 2 = Inr False" by code_simp
  have h2: "(0::nat) < length [[[0, 1], [1, 0], [0, 1], [] :: Pref]]" by simp
  have h3: "(3::nat) < length ([[[0, 1], [1, 0], [0, 1], [] :: Pref]] ! 0)" by simp
  have h4: "[[[0, 1], [1, 0], [0, 1], []]] ! 0 ! 3 = EmptyProf" by (simp add: EmptyProf_def)
  have h5: "full_permutation [1, 0] 2" by (simp add: full_permutation_def)
  from grid_valid_monotone[OF h1 h2 h3 h4, of "[1, 0]"] h5
  have "grid_valid (set_cell [[[0, 1], [1, 0], [0, 1], []]] 0 3 [1, 0]) 2 = Inr False" by blast
  with h1 h4 h5 show ?thesis by blast
qed

text \<open>
  C3. \<^verbatim>\<open>get_dominance_box\<close> lacks the test \<^verbatim>\<open>g[i][j] != EmptyProf\<close> that
  \<^verbatim>\<open>get_preference_bounding_box\<close> makes before it reads a list. In the one-row profile
  below the second voter is unassigned. The box of the assigned voters with top candidate 0
  is that of voter (0, 0), and \<^verbatim>\<open>get_preference_bounding_box\<close> returns it for the pair
  of candidates 0 and 1; \<^verbatim>\<open>get_dominance_box\<close> reads the first entry of the empty list
  instead.
\<close>

theorem get_dominance_box_unassigned_read:
  "[[[0, 1], []]] ! 0 ! 1 = EmptyProf
   \<and> bounding_box (voters_with_top [[[0, 1], []]] 0) = \<lparr>r0 = 0, r1 = 0, c0 = 0, c1 = 0\<rparr>
   \<and> get_preference_bounding_box [[[0, 1], []]] 0 1 = Inr \<lparr>r0 = 0, r1 = 0, c0 = 0, c1 = 0\<rparr>
   \<and> get_dominance_box [[[0, 1], []]] 0 = Inl OutOfRange"
proof -
  have a: "[[[0, 1], []]] ! 0 ! 1 = EmptyProf" by code_simp
  have b: "bounding_box (voters_with_top [[[0, 1], []]] 0) = \<lparr>r0 = 0, r1 = 0, c0 = 0, c1 = 0\<rparr>"
    by code_simp
  have c: "get_preference_bounding_box [[[0, 1], []]] 0 1
             = Inr \<lparr>r0 = 0, r1 = 0, c0 = 0, c1 = 0\<rparr>"
    by code_simp
  have d: "get_dominance_box [[[0, 1], []]] 0 = Inl OutOfRange" by code_simp
  from a b c d show ?thesis by simp
qed

section \<open>Crossing count of two preference lists\<close>

lemma for_loop_Inr: "for_loop xs (\<lambda>x s. Inr (F x s)) s = Inr (fold F xs s)"
  by (induction xs arbitrary: s) auto

lemma fold_pair:
  "fold (\<lambda>i (a, b). (f i a, h i b)) xs (a, b) = (fold f xs a, fold h xs b)"
  by (induction xs arbitrary: a b) auto

lemma for_loop_checked_sum:
  fixes k :: "'i \<Rightarrow> int"
  assumes "0 \<le> s" and "s \<le> INF_int" and "\<And>x. x \<in> set xs \<Longrightarrow> 0 \<le> k x"
    and "\<And>x a. x \<in> set xs \<Longrightarrow> 0 \<le> a \<Longrightarrow> a \<le> INF_int \<Longrightarrow>
           body x a = (if a + k x \<le> INF_int then Inr (a + k x) else Inl SignedOverflow)"
  shows "for_loop xs body s
       = (if s + sum_list (map k xs) \<le> INF_int then Inr (s + sum_list (map k xs))
          else Inl SignedOverflow)"
  using assms
proof (induction xs arbitrary: s)
  case Nil
  then show ?case by simp
next
  case (Cons x xs)
  have kx: "0 \<le> k x" using Cons.prems(3) by simp
  have rest: "0 \<le> sum_list (map k xs)"
    using Cons.prems(3) by (intro sum_list_nonneg) auto
  have bx: "body x s = (if s + k x \<le> INF_int then Inr (s + k x) else Inl SignedOverflow)"
    using Cons.prems(4)[of x s] Cons.prems(1,2) by simp
  show ?case
  proof (cases "s + k x \<le> INF_int")
    case True
    have "for_loop xs body (s + k x)
        = (if s + k x + sum_list (map k xs) \<le> INF_int
           then Inr (s + k x + sum_list (map k xs)) else Inl SignedOverflow)"
    proof (rule Cons.IH)
      show "0 \<le> s + k x" using Cons.prems(1) kx by simp
      show "s + k x \<le> INF_int" by (rule True)
      show "0 \<le> k y" if "y \<in> set xs" for y using Cons.prems(3)[of y] that by simp
      show "body y a = (if a + k y \<le> INF_int then Inr (a + k y) else Inl SignedOverflow)"
        if "y \<in> set xs" "0 \<le> a" "a \<le> INF_int" for y a
        using Cons.prems(4)[of y a] that by simp
    qed
    with bx True show ?thesis by (simp add: add.assoc)
  next
    case False
    with rest have "\<not> s + (k x + sum_list (map k xs)) \<le> INF_int" by linarith
    with bx False show ?thesis by simp
  qed
qed

lemma crossings_loop:
  "for_loop [0..<n] (\<lambda>ca. for_loop [Suc ca..<n] (\<lambda>cb ans.
       if int_value (ans + of_bool ((a ! ca < a ! cb) \<noteq> (b ! ca < b ! cb)))
       then Inr (ans + of_bool ((a ! ca < a ! cb) \<noteq> (b ! ca < b ! cb)))
       else Inl SignedOverflow)) 0
   = (if crossings a b n \<le> INF_int then Inr (crossings a b n) else Inl SignedOverflow)"
proof -
  let ?ind = "\<lambda>ca cb. of_bool ((a ! ca < a ! cb) \<noteq> (b ! ca < b ! cb)) :: int"
  let ?inner = "\<lambda>ca cb ans. if int_value (ans + ?ind ca cb) then Inr (ans + ?ind ca cb)
                               else Inl SignedOverflow"
  let ?k = "\<lambda>ca. sum_list (map (?ind ca) [Suc ca..<n])"
  have inner: "for_loop [Suc ca..<n] (?inner ca) s
      = (if s + ?k ca \<le> INF_int then Inr (s + ?k ca) else Inl SignedOverflow)"
    if "0 \<le> s" "s \<le> INF_int" for ca s
  proof (rule for_loop_checked_sum[OF that])
    show "0 \<le> ?ind ca cb" for cb by simp
    show "?inner ca cb x
        = (if x + ?ind ca cb \<le> INF_int then Inr (x + ?ind ca cb) else Inl SignedOverflow)"
      if "0 \<le> x" for cb x
      using that by (simp add: int_value_def INF_int_def)
  qed
  have "for_loop [0..<n] (\<lambda>ca. for_loop [Suc ca..<n] (?inner ca)) 0
      = (if 0 + sum_list (map ?k [0..<n]) \<le> INF_int then Inr (0 + sum_list (map ?k [0..<n]))
         else Inl SignedOverflow)"
  proof (rule for_loop_checked_sum)
    show "(0::int) \<le> 0" by simp
    show "0 \<le> INF_int" by (simp add: INF_int_def)
    show "0 \<le> ?k ca" for ca by (intro sum_list_nonneg) auto
    show "for_loop [Suc ca..<n] (?inner ca) x
        = (if x + ?k ca \<le> INF_int then Inr (x + ?k ca) else Inl SignedOverflow)"
      if "0 \<le> x" "x \<le> INF_int" for ca x
      by (rule inner[OF that])
  qed
  moreover have "sum_list (map ?k [0..<n]) = crossings a b n"
    unfolding crossings_def by (simp only: interv_sum_list_conv_sum_set_nat set_upt)
  ultimately show ?thesis by simp
qed

lemma full_permutation_nth:
  assumes "full_permutation p C" and "i < nat C"
  shows "i < length p" and "0 \<le> p ! i" and "p ! i < C"
proof -
  from assms show i: "i < length p" by (simp add: full_permutation_def)
  from full_permutation_set[OF assms(1)] nth_mem[OF i] show "0 \<le> p ! i" and "p ! i < C"
    by auto
qed

lemma cnt_crosses_eq:
  assumes "full_permutation p0 C" and "full_permutation p1 C"
  shows "cnt_crosses p0 p1 C
       = (if crossings (inverse_of p0 (nat C)) (inverse_of p1 (nat C)) (nat C) \<le> INF_int
          then Inr (crossings (inverse_of p0 (nat C)) (inverse_of p1 (nat C)) (nat C))
          else Inl SignedOverflow)"
proof -
  from assms(1) have C: "0 \<le> C" by (simp add: full_permutation_def)
  have "for_loop [0..<nat C] (\<lambda>i (inv_p0, inv_p1).
               if i < length p0 \<and> i < length p1
                  \<and> 0 \<le> p0 ! i \<and> p0 ! i < C \<and> 0 \<le> p1 ! i \<and> p1 ! i < C
               then Inr (inv_p0[nat (p0 ! i) := int i], inv_p1[nat (p1 ! i) := int i])
               else Inl OutOfRange)
             (replicate (nat C) 0, replicate (nat C) 0)
      = for_loop [0..<nat C] (\<lambda>i s. Inr ((\<lambda>i (inv_p0, inv_p1).
               (inv_p0[nat (p0 ! i) := int i], inv_p1[nat (p1 ! i) := int i])) i s))
             (replicate (nat C) 0, replicate (nat C) 0)"
  proof (rule for_loop_cong)
    fix i s assume "i \<in> set [0..<nat C]"
    then have i: "i < nat C" by simp
    from full_permutation_nth[OF assms(1) i] full_permutation_nth[OF assms(2) i]
    show "(case s of (inv_p0, inv_p1) \<Rightarrow>
               if i < length p0 \<and> i < length p1
                  \<and> 0 \<le> p0 ! i \<and> p0 ! i < C \<and> 0 \<le> p1 ! i \<and> p1 ! i < C
               then Inr (inv_p0[nat (p0 ! i) := int i], inv_p1[nat (p1 ! i) := int i])
               else Inl OutOfRange)
        = Inr (case s of (inv_p0, inv_p1) \<Rightarrow>
               (inv_p0[nat (p0 ! i) := int i], inv_p1[nat (p1 ! i) := int i]))"
      by (cases s) simp
  qed
  also have "\<dots> = Inr (inverse_of p0 (nat C), inverse_of p1 (nat C))"
    unfolding for_loop_Inr inverse_of_def by (simp add: fold_pair)
  finally have "for_loop [0..<nat C] (\<lambda>i (inv_p0, inv_p1).
               if i < length p0 \<and> i < length p1
                  \<and> 0 \<le> p0 ! i \<and> p0 ! i < C \<and> 0 \<le> p1 ! i \<and> p1 ! i < C
               then Inr (inv_p0[nat (p0 ! i) := int i], inv_p1[nat (p1 ! i) := int i])
               else Inl OutOfRange)
             (replicate (nat C) 0, replicate (nat C) 0)
      = Inr (inverse_of p0 (nat C), inverse_of p1 (nat C))" .
  then show ?thesis
    using C unfolding cnt_crosses_def by (simp only: crossings_loop) simp
qed

text \<open>The inverse array of a full permutation holds the rank of every candidate.\<close>

lemma inverse_of_prefix:
  assumes "distinct p" and "length p = n" and "\<forall>c\<in>set p. 0 \<le> c \<and> c < int n" and "k \<le> n"
  shows "length (fold (\<lambda>i inv. inv[nat (p ! i) := int i]) [0..<k] (replicate n 0)) = n
       \<and> (\<forall>i<k. fold (\<lambda>i inv. inv[nat (p ! i) := int i]) [0..<k] (replicate n 0) ! nat (p ! i) = int i)"
  using assms(4)
proof (induction k)
  case 0
  then show ?case by simp
next
  case (Suc k)
  let ?f = "\<lambda>k. fold (\<lambda>i inv. inv[nat (p ! i) := int i]) [0..<k] (replicate n 0)"
  from Suc have ih: "length (?f k) = n" "\<forall>i<k. ?f k ! nat (p ! i) = int i" by simp_all
  have step: "?f (Suc k) = (?f k)[nat (p ! k) := int k]" by simp
  from Suc.prems assms(2) have k: "k < length p" by simp
  from nth_mem[OF k] assms(3) have pk: "0 \<le> p ! k" "p ! k < int n" by auto
  have "\<forall>i<Suc k. ?f (Suc k) ! nat (p ! i) = int i"
  proof (intro allI impI)
    fix i assume i: "i < Suc k"
    show "?f (Suc k) ! nat (p ! i) = int i"
    proof (cases "i = k")
      case True
      with pk ih(1) show ?thesis unfolding step by simp
    next
      case False
      with i have ik: "i < k" by simp
      with k have il: "i < length p" by simp
      from nth_mem[OF il] assms(3) have pi: "0 \<le> p ! i" by auto
      from assms(1) il k False have "p ! i \<noteq> p ! k" by (simp add: nth_eq_iff_index_eq)
      with pi pk have "nat (p ! i) \<noteq> nat (p ! k)" by simp
      with ih(2) ik show ?thesis unfolding step by simp
    qed
  qed
  with ih(1) show ?case unfolding step by simp
qed

lemma inverse_of_rank:
  assumes "full_permutation p C" and "i < nat C"
  shows "inverse_of p (nat C) ! nat (p ! i) = int i"
proof -
  from assms(1) have d: "distinct p" and l: "length p = nat C" and C: "0 \<le> C"
    by (simp_all add: full_permutation_def)
  from full_permutation_set[OF assms(1)] C have r: "\<forall>c\<in>set p. 0 \<le> c \<and> c < int (nat C)" by simp
  from inverse_of_prefix[OF d l r, of "nat C"] assms(2) show ?thesis
    by (simp add: inverse_of_def)
qed

text \<open>Every candidate \<open>c < C\<close> has a rank \<open>i\<close> in a full permutation.\<close>

lemma full_permutation_rank:
  assumes "full_permutation p C" and "c < nat C"
  shows "\<exists>i<nat C. p ! i = int c \<and> inverse_of p (nat C) ! c = int i"
proof -
  from assms have "int c \<in> set p" using full_permutation_set[OF assms(1)] by simp
  then obtain i where i: "i < length p" "p ! i = int c" by (auto simp: in_set_conv_nth)
  from assms(1) i(1) have iC: "i < nat C" by (simp add: full_permutation_def)
  from inverse_of_rank[OF assms(1) iC] i(2) have "inverse_of p (nat C) ! c = int i" by simp
  with iC i(2) show ?thesis by blast
qed

lemma inverse_of_inj:
  assumes "full_permutation p C" and "a < nat C" and "b < nat C" and "a \<noteq> b"
  shows "inverse_of p (nat C) ! a \<noteq> inverse_of p (nat C) ! b"
proof -
  from full_permutation_rank[OF assms(1,2)] obtain i where
    i: "p ! i = int a" "inverse_of p (nat C) ! a = int i" by blast
  from full_permutation_rank[OF assms(1,3)] obtain j where
    j: "p ! j = int b" "inverse_of p (nat C) ! b = int j" by blast
  from i(1) j(1) assms(4) have "i \<noteq> j" by auto
  with i(2) j(2) show ?thesis by simp
qed

lemma crossings_commute: "crossings a b n = crossings b a n"
  unfolding crossings_def by (intro sum.cong refl arg_cong[where f = of_bool]) auto

lemma pairs_count: "(\<Sum>ca = 0..<n. \<Sum>cb = Suc ca..<n. (1::int)) = int n * (int n - 1) div 2"
proof -
  have "(\<Sum>ca = 0..<n. \<Sum>cb = Suc ca..<n. (1::int)) = (\<Sum>ca = 0..<n. int (n - Suc ca))"
    by simp
  also have "\<dots> = int (\<Sum>ca<n. n - Suc ca)" by (simp add: atLeast0LessThan)
  also have "(\<Sum>ca<n. n - Suc ca) = (\<Sum>i<n. i)" by (rule sum.nat_diff_reindex)
  also have "(\<Sum>i<n. i) = n * (n - 1) div 2"
    using Sum_Ico_nat[of 0 n] by (simp add: atLeast0LessThan)
  also have "int (n * (n - 1) div 2) = int n * (int n - 1) div 2"
  proof (cases n)
    case 0
    then show ?thesis by simp
  next
    case (Suc m)
    then show ?thesis by (simp add: zdiv_int algebra_simps)
  qed
  finally show ?thesis .
qed

lemma crossings_bounds: "0 \<le> crossings a b n \<and> crossings a b n \<le> int n * (int n - 1) div 2"
proof
  show "0 \<le> crossings a b n" unfolding crossings_def by (intro sum_nonneg) simp
  have "crossings a b n \<le> (\<Sum>ca = 0..<n. \<Sum>cb = Suc ca..<n. (1::int))"
    unfolding crossings_def by (intro sum_mono) simp
  then show "crossings a b n \<le> int n * (int n - 1) div 2" by (simp only: pairs_count)
qed

lemma crossings_all:
  assumes "\<And>ca cb. ca < cb \<Longrightarrow> cb < n \<Longrightarrow> (a ! ca < a ! cb) \<noteq> (b ! ca < b ! cb)"
  shows "crossings a b n = int n * (int n - 1) div 2"
proof -
  have "crossings a b n = (\<Sum>ca = 0..<n. \<Sum>cb = Suc ca..<n. (1::int))"
    unfolding crossings_def
  proof (intro sum.cong refl)
    fix ca cb assume "ca \<in> {0..<n}" "cb \<in> {Suc ca..<n}"
    then have "ca < cb" "cb < n" by simp_all
    from assms[OF this] show "(of_bool ((a ! ca < a ! cb) \<noteq> (b ! ca < b ! cb)) :: int) = 1"
      by simp
  qed
  then show ?thesis by (simp only: pairs_count)
qed

lemma crossings_zero:
  "crossings a b n = 0 \<longleftrightarrow> (\<forall>ca cb. ca < cb \<and> cb < n \<longrightarrow> (a ! ca < a ! cb) = (b ! ca < b ! cb))"
proof -
  let ?ind = "\<lambda>ca cb. of_bool ((a ! ca < a ! cb) \<noteq> (b ! ca < b ! cb)) :: int"
  have inner: "(\<Sum>cb = Suc ca..<n. ?ind ca cb) = 0 \<longleftrightarrow> (\<forall>cb\<in>{Suc ca..<n}. ?ind ca cb = 0)" for ca
    by (rule sum_nonneg_eq_0_iff) simp_all
  have "crossings a b n = 0 \<longleftrightarrow> (\<forall>ca\<in>{0..<n}. (\<Sum>cb = Suc ca..<n. ?ind ca cb) = 0)"
    unfolding crossings_def by (rule sum_nonneg_eq_0_iff) (simp_all add: sum_nonneg)
  also have "\<dots> \<longleftrightarrow> (\<forall>ca\<in>{0..<n}. \<forall>cb\<in>{Suc ca..<n}. ?ind ca cb = 0)"
    by (simp only: inner)
  also have "\<dots> \<longleftrightarrow> (\<forall>ca cb. ca < cb \<and> cb < n \<longrightarrow> (a ! ca < a ! cb) = (b ! ca < b ! cb))"
    by auto
  finally show ?thesis .
qed

lemma strict_mono_gap:
  fixes f :: "nat \<Rightarrow> nat"
  assumes "\<And>i j. i < j \<Longrightarrow> j < n \<Longrightarrow> f i < f j"
  shows "i \<le> j \<Longrightarrow> j < n \<Longrightarrow> f i + (j - i) \<le> f j"
proof (induction j)
  case 0
  then show ?case by simp
next
  case (Suc j)
  show ?case
  proof (cases "i = Suc j")
    case True
    then show ?thesis by simp
  next
    case False
    with Suc.prems have ij: "i \<le> j" and j: "j < n" by simp_all
    from Suc.IH[OF ij j] have "f i + (j - i) \<le> f j" .
    moreover from assms[of j "Suc j"] Suc.prems have "f j < f (Suc j)" by simp
    ultimately show ?thesis using ij by simp
  qed
qed

lemma strict_mono_bounded_id:
  fixes f :: "nat \<Rightarrow> nat"
  assumes mono: "\<And>i j. i < j \<Longrightarrow> j < n \<Longrightarrow> f i < f j" and bound: "\<And>i. i < n \<Longrightarrow> f i < n"
    and i: "i < n"
  shows "f i = i"
proof -
  from strict_mono_gap[of n f 0 i, OF mono] i have "i \<le> f i" by simp
  moreover from strict_mono_gap[of n f i "n - 1", OF mono] i
  have "f i + (n - 1 - i) \<le> f (n - 1)" by simp
  moreover from bound[of "n - 1"] i have "f (n - 1) < n" by simp
  ultimately show ?thesis using i by simp
qed

lemma crossings_zero_eq:
  assumes p0: "full_permutation p0 C" and p1: "full_permutation p1 C"
    and z: "crossings (inverse_of p0 (nat C)) (inverse_of p1 (nat C)) (nat C) = 0"
  shows "p0 = p1"
proof -
  let ?n = "nat C"
  let ?a = "inverse_of p0 ?n" and ?b = "inverse_of p1 ?n"
  from z have ord: "\<And>ca cb. ca < cb \<Longrightarrow> cb < ?n \<Longrightarrow> (?a ! ca < ?a ! cb) = (?b ! ca < ?b ! cb)"
    by (simp add: crossings_zero)
  have ord': "(?a ! x < ?a ! y) = (?b ! x < ?b ! y)" if "x < ?n" "y < ?n" "x \<noteq> y" for x y
  proof (cases "x < y")
    case True
    from ord[OF True that(2)] show ?thesis .
  next
    case False
    with that(3) have yx: "y < x" by simp
    from ord[OF yx that(1)] inverse_of_inj[OF p0 that(1,2,3)] inverse_of_inj[OF p1 that(1,2,3)]
    show ?thesis by auto
  qed
  define f where "f i = nat (?b ! nat (p0 ! i))" for i
  have cand: "nat (p0 ! i) < ?n \<and> ?a ! nat (p0 ! i) = int i" if "i < ?n" for i
    using full_permutation_nth[OF p0 that] inverse_of_rank[OF p0 that] by simp
  have rank1: "\<exists>k<?n. p1 ! k = p0 ! i \<and> ?b ! nat (p0 ! i) = int k" if "i < ?n" for i
  proof -
    from cand[OF that] have c: "nat (p0 ! i) < ?n" by simp
    from full_permutation_rank[OF p1 c] full_permutation_nth(2)[OF p0 that] show ?thesis by simp
  qed
  have fk: "f i < ?n \<and> p1 ! f i = p0 ! i" if "i < ?n" for i
    using rank1[OF that] by (auto simp: f_def)
  have mono: "f i < f j" if "i < j" "j < ?n" for i j
  proof -
    from that have i: "i < ?n" by simp
    from p0 have d: "distinct p0" and l: "length p0 = ?n" by (simp_all add: full_permutation_def)
    from d l i that have "p0 ! i \<noteq> p0 ! j" by (simp add: nth_eq_iff_index_eq)
    with full_permutation_nth(2)[OF p0 i] full_permutation_nth(2)[OF p0 that(2)]
    have ne: "nat (p0 ! i) \<noteq> nat (p0 ! j)" by simp
    from cand[OF i] cand[OF that(2)] that(1)
    have "?a ! nat (p0 ! i) < ?a ! nat (p0 ! j)" by simp
    with ord'[of "nat (p0 ! i)" "nat (p0 ! j)"] cand[OF i] cand[OF that(2)] ne
    have "?b ! nat (p0 ! i) < ?b ! nat (p0 ! j)" by simp
    moreover from rank1[OF i] have "0 \<le> ?b ! nat (p0 ! i)" by auto
    ultimately show ?thesis by (simp add: f_def)
  qed
  have id: "f i = i" if "i < ?n" for i
    using strict_mono_bounded_id[of ?n f i] mono fk that by blast
  from p0 p1 have len: "length p0 = ?n" "length p1 = ?n" by (simp_all add: full_permutation_def)
  show ?thesis
  proof (rule nth_equalityI)
    show "length p0 = length p1" using len by simp
  next
    fix i assume "i < length p0"
    with len have i: "i < ?n" by simp
    from fk[OF i] id[OF i] show "p0 ! i = p1 ! i" by simp
  qed
qed

lemma full_permutation_rev: "full_permutation p C \<Longrightarrow> full_permutation (rev p) C"
  by (simp add: full_permutation_def list_all_iff)

lemma inverse_of_rev:
  assumes p: "full_permutation p C" and c: "c < nat C"
  shows "inverse_of (rev p) (nat C) ! c = int (nat C) - 1 - inverse_of p (nat C) ! c"
proof -
  from full_permutation_rank[OF p c] obtain i where
    i: "i < nat C" "p ! i = int c" "inverse_of p (nat C) ! c = int i" by blast
  from p have l: "length p = nat C" by (simp add: full_permutation_def)
  let ?j = "nat C - Suc i"
  from i(1) have j: "?j < nat C" by simp
  from i(1) l have "rev p ! ?j = p ! i" by (simp add: rev_nth)
  with inverse_of_rank[OF full_permutation_rev[OF p] j] i(2)
  have "inverse_of (rev p) (nat C) ! c = int ?j" by simp
  with i(1,3) show ?thesis by simp
qed

text \<open>
  C6 (as the code has it). For full permutations \<open>p0\<close> and \<open>p1\<close> of
  \<open>{0, ..., C - 1}\<close> with \<open>C \<le> 65536\<close>, so that \<open>C (C - 1) / 2\<close> is a value of
  \<^verbatim>\<open>int\<close>, \<^verbatim>\<open>cnt_crosses\<close> returns the same count for \<open>(p0, p1)\<close> and \<open>(p1, p0)\<close>; the
  count is 0 if and only if \<open>p0 = p1\<close>; it is at most \<open>C (C - 1) / 2\<close>, and equal to it
  when \<open>p1\<close> is the reversal of \<open>p0\<close>.
\<close>

theorem cnt_crosses_laws:
  assumes "full_permutation p0 C" and "full_permutation p1 C" and "C \<le> 65536"
  shows "\<exists>n. cnt_crosses p0 p1 C = Inr n \<and> cnt_crosses p1 p0 C = Inr n
            \<and> (n = 0 \<longleftrightarrow> p0 = p1) \<and> 0 \<le> n \<and> n \<le> C * (C - 1) div 2
            \<and> cnt_crosses p0 (rev p0) C = Inr (C * (C - 1) div 2)"
proof -
  let ?n = "nat C"
  let ?a = "inverse_of p0 ?n" and ?b = "inverse_of p1 ?n"
  from assms(1) have C0: "0 \<le> C" and C: "int ?n = C" by (simp_all add: full_permutation_def)
  have fits: "x \<le> INF_int" if "x \<le> C * (C - 1) div 2" for x
  proof -
    have "C * (C - 1) \<le> 65536 * 65535"
    proof (cases "C = 0")
      case True
      then show ?thesis by simp
    next
      case False
      with C0 have "0 \<le> C - 1" by simp
      with C0 assms(3) show ?thesis by (intro mult_mono) simp_all
    qed
    then have "C * (C - 1) div 2 \<le> 65536 * 65535 div 2" by (rule zdiv_mono1) simp
    with that show ?thesis by (simp add: INF_int_def)
  qed
  have b: "0 \<le> crossings x y ?n \<and> crossings x y ?n \<le> C * (C - 1) div 2" for x y
    using crossings_bounds[of x y ?n] by (simp only: C)
  have e1: "cnt_crosses p0 p1 C = Inr (crossings ?a ?b ?n)"
    using cnt_crosses_eq[OF assms(1,2)] fits b[of ?a ?b] by simp
  have e2: "cnt_crosses p1 p0 C = Inr (crossings ?a ?b ?n)"
    using cnt_crosses_eq[OF assms(2,1)] fits b[of ?b ?a] by (simp add: crossings_commute)
  have z: "crossings ?a ?b ?n = 0 \<longleftrightarrow> p0 = p1"
  proof
    assume "crossings ?a ?b ?n = 0"
    from crossings_zero_eq[OF assms(1,2) this] show "p0 = p1" .
  next
    assume "p0 = p1"
    then show "crossings ?a ?b ?n = 0" by (simp add: crossings_zero)
  qed
  have r: "cnt_crosses p0 (rev p0) C = Inr (C * (C - 1) div 2)"
  proof -
    have "crossings ?a (inverse_of (rev p0) ?n) ?n = int ?n * (int ?n - 1) div 2"
    proof (rule crossings_all)
      fix ca cb assume lt: "ca < cb" "cb < ?n"
      then have ca: "ca < ?n" by simp
      from inverse_of_inj[OF assms(1) ca lt(2)] lt(1) have "?a ! ca \<noteq> ?a ! cb" by simp
      then show "(?a ! ca < ?a ! cb) \<noteq> (inverse_of (rev p0) ?n ! ca < inverse_of (rev p0) ?n ! cb)"
        unfolding inverse_of_rev[OF assms(1) ca] inverse_of_rev[OF assms(1) lt(2)] by auto
    qed
    then have "crossings ?a (inverse_of (rev p0) ?n) ?n = C * (C - 1) div 2" by (simp only: C)
    with cnt_crosses_eq[OF assms(1) full_permutation_rev[OF assms(1)]] fits[of "C * (C - 1) div 2"]
    show ?thesis by simp
  qed
  from e1 e2 z b[of ?a ?b] r show ?thesis by blast
qed

theorem cnt_crosses_laws_witness:
  "full_permutation [0, 2, 1, 3] 4 \<and> full_permutation [2, 0, 3, 1] 4 \<and> (4::int) \<le> 65536
   \<and> cnt_crosses [0, 2, 1, 3] [2, 0, 3, 1] 4 = Inr 2
   \<and> cnt_crosses [2, 0, 3, 1] [0, 2, 1, 3] 4 = Inr 2
   \<and> cnt_crosses [0, 2, 1, 3] (rev [0, 2, 1, 3]) 4 = Inr 6"
proof -
  have h1: "full_permutation [0, 2, 1, 3] 4" and h2: "full_permutation [2, 0, 3, 1] 4"
    by (simp_all add: full_permutation_def)
  have h3: "(4::int) \<le> 65536" by simp
  have v: "cnt_crosses [0, 2, 1, 3] [2, 0, 3, 1] 4 = Inr 2" by code_simp
  from cnt_crosses_laws[OF h1 h2 h3] v
  have "cnt_crosses [2, 0, 3, 1] [0, 2, 1, 3] 4 = Inr 2
      \<and> cnt_crosses [0, 2, 1, 3] (rev [0, 2, 1, 3]) 4 = Inr 6" by auto
  with h1 h2 h3 v show ?thesis by blast
qed

section \<open>Properties of the backtracking search\<close>

lemma next_permutation_mset: "next_permutation xs = (b, ys) \<Longrightarrow> mset ys = mset xs"
proof (induction xs arbitrary: b ys)
  case Nil
  then show ?case by simp
next
  case (Cons x xs)
  obtain b' ys' where sub: "next_permutation xs = (b', ys')" by (cases "next_permutation xs")
  from Cons.IH[OF sub] have m: "mset ys' = mset xs" .
  show ?case
  proof (cases b')
    case True
    with sub Cons.prems m show ?thesis by auto
  next
    case False
    show ?thesis
    proof (cases "dropWhile (\<lambda>z. z \<le> x) ys'")
      case Nil
      with sub False Cons.prems m show ?thesis by auto
    next
      case (Cons y bs)
      have "mset (takeWhile (\<lambda>z. z \<le> x) ys') + mset (dropWhile (\<lambda>z. z \<le> x) ys') = mset ys'"
        by (simp flip: mset_append)
      with Cons m have "mset (takeWhile (\<lambda>z. z \<le> x) ys') + mset (y # bs) = mset xs" by simp
      moreover from sub False Cons Cons.prems
      have "ys = y # takeWhile (\<lambda>z. z \<le> x) ys' @ x # bs" by auto
      ultimately show ?thesis by (simp add: ac_simps)
    qed
  qed
qed






lemma test_hypothesis_1_Returned: "test_hypothesis_1 g C = Returned g' \<Longrightarrow> g' = g"
  by (auto simp: test_hypothesis_1_def split: sum.splits if_splits)

lemma backtr_Returned_cases:
  assumes "backtr (Suc n) g C r c = Returned g'"
  shows "g' = g \<or> backtr n g C (r + 1) 0 = Returned g'
       \<or> (\<exists>g1. permutations_loop n (set_cell g r c (iota C)) C r c = Returned g1
              \<and> g' = set_cell g1 r c EmptyProf \<and> r < length g \<and> c < length (g ! r) \<and> 0 \<le> C
              \<and> r \<noteq> length g \<and> c \<noteq> length (g ! 0))"
proof (cases "grid_valid g C")
  case (Inl e)
  with assms show ?thesis by (simp split: if_splits)
next
  case (Inr valid)
  show ?thesis
  proof (cases "length g = 0 \<or> length (g ! 0) = 0 \<or> \<not> valid")
    case True
    with assms Inr show ?thesis by (auto split: if_splits)
  next
    case False
    note ok = this
    show ?thesis
    proof (cases "r = length g")
      case True
      with assms Inr ok test_hypothesis_1_Returned[of g C g'] show ?thesis by simp
    next
      case rN: False
      show ?thesis
      proof (cases "c = length (g ! 0)")
        case True
        with assms Inr ok rN show ?thesis by simp
      next
        case cM: False
        show ?thesis
        proof (cases "permutations_loop n (set_cell g r c (iota C)) C r c")
          case (Returned g1)
          with assms Inr ok rN cM show ?thesis by (simp split: if_splits)
        next
          case (Exited g1)
          with assms Inr ok rN cM show ?thesis by (simp split: if_splits)
        next
          case (Failed e)
          with assms Inr ok rN cM show ?thesis by (simp split: if_splits)
        next
          case OutOfFuel
          with assms Inr ok rN cM show ?thesis by (simp split: if_splits)
        qed
      qed
    qed
  qed
qed

lemma frame_refl: "frame r c g g"
  by (simp add: frame_def)

lemma before_next_row: "row_major_before (i, j) (r, c) \<Longrightarrow> row_major_before (i, j) (r + 1, 0)"
  by (auto simp: row_major_before_def)

lemma before_next_col: "row_major_before (i, j) (r, c) \<Longrightarrow> row_major_before (i, j) (r, c + 1)"
  by (auto simp: row_major_before_def)

lemma frame_next_row: "frame (r + 1) 0 g g' \<Longrightarrow> frame r c g g'"
  unfolding frame_def using before_next_row by blast

lemma frame_loop_call: "frame r (c + 1) g g' \<Longrightarrow> frame_except r c g g'"
  unfolding frame_def frame_except_def using before_next_col by blast


lemma same_shape_nth:
  assumes "map length g' = map length g"
  shows "length g' = length g" and "i < length g \<Longrightarrow> length (g' ! i) = length (g ! i)"
proof -
  from assms show l: "length g' = length g" using length_map[of length g'] length_map[of length g]
    by simp
  assume i: "i < length g"
  with l have "map length g' ! i = length (g' ! i)" "map length g ! i = length (g ! i)" by simp_all
  with assms show "length (g' ! i) = length (g ! i)" by simp
qed

lemma set_cell_shape: "map length (set_cell g r c p) = map length g"
  by (rule nth_equalityI) (simp_all add: set_cell_length set_cell_row_length)

lemma set_cell_other:
  "(i, j) \<noteq> (r, c) \<Longrightarrow> set_cell g r c p ! i ! j = g ! i ! j"
proof (cases "r < length g")
  case True
  assume "(i, j) \<noteq> (r, c)"
  then show ?thesis using True
    by (cases "i = r") (auto simp: set_cell_def)
next
  case False
  then show ?thesis by (simp add: set_cell_def not_less list_update_beyond)
qed

lemma frame_except_set_cell:
  assumes "frame_except r c g g1"
  shows "frame_except r c g (set_cell g1 r c p)"
  using assms unfolding frame_except_def
  by (auto simp: set_cell_shape set_cell_other)

lemma frame_except_trans:
  assumes "frame_except r c g g1" and "frame_except r c (set_cell g1 r c p) g'"
  shows "frame_except r c g g'"
proof -
  from assms(1) have s1: "map length g1 = map length g" by (simp add: frame_except_def)
  from assms(2) have s2: "map length g' = map length g1"
    by (simp add: frame_except_def set_cell_shape)
  have "g' ! i ! j = g ! i ! j \<or> (\<not> row_major_before (i, j) (r, c) \<and> g' ! i ! j = EmptyProf)"
    if "i < length g" "j < length (g ! i)" "(i, j) \<noteq> (r, c)" for i j
  proof -
    from same_shape_nth[OF s1] that have i1: "i < length g1" and j1: "j < length (g1 ! i)"
      by simp_all
    then have "i < length (set_cell g1 r c p)" "j < length (set_cell g1 r c p ! i)"
      by (simp_all add: set_cell_length set_cell_row_length)
    with assms(2) that(3)
    have "g' ! i ! j = set_cell g1 r c p ! i ! j
        \<or> (\<not> row_major_before (i, j) (r, c) \<and> g' ! i ! j = EmptyProf)"
      unfolding frame_except_def by blast
    moreover from assms(1) that
    have "g1 ! i ! j = g ! i ! j \<or> (\<not> row_major_before (i, j) (r, c) \<and> g1 ! i ! j = EmptyProf)"
      unfolding frame_except_def by blast
    ultimately show ?thesis using set_cell_other[OF that(3), of g1 p] by auto
  qed
  with s1 s2 show ?thesis unfolding frame_except_def by simp
qed

lemma frame_from_except:
  assumes "frame_except r c (set_cell g r c p) g1" and "r < length g" and "c < length (g ! r)"
  shows "frame r c g (set_cell g1 r c EmptyProf)"
proof -
  from assms(1) have s1: "map length g1 = map length g"
    by (simp add: frame_except_def set_cell_shape)
  have "set_cell g1 r c EmptyProf ! i ! j = g ! i ! j
      \<or> (\<not> row_major_before (i, j) (r, c) \<and> set_cell g1 r c EmptyProf ! i ! j = EmptyProf)"
    if "i < length g" "j < length (g ! i)" for i j
  proof (cases "(i, j) = (r, c)")
    case True
    from same_shape_nth[OF s1] assms(2,3) have "r < length g1" "c < length (g1 ! r)" by simp_all
    from set_cell_nth[OF this, of EmptyProf r c] True show ?thesis
      by (simp add: row_major_before_def)
  next
    case False
    from that have "i < length (set_cell g r c p)" "j < length (set_cell g r c p ! i)"
      by (simp_all add: set_cell_length set_cell_row_length)
    with assms(1) False
    have "g1 ! i ! j = set_cell g r c p ! i ! j
        \<or> (\<not> row_major_before (i, j) (r, c) \<and> g1 ! i ! j = EmptyProf)"
      unfolding frame_except_def by blast
    with set_cell_other[OF False, of g1 EmptyProf] set_cell_other[OF False, of g p]
    show ?thesis by auto
  qed
  with s1 show ?thesis unfolding frame_def by (simp add: set_cell_shape)
qed

lemma backtr_frame:
  "(backtr n g C r c = Returned g' \<longrightarrow> frame r c g g')
   \<and> (permutations_loop n g C r c = Returned g' \<longrightarrow> frame_except r c g g')"
proof (induction n arbitrary: g C r c g')
  case 0
  show ?case by simp
next
  case (Suc n)
  have b: "frame r' c' g1 g2" if "backtr n g1 C' r' c' = Returned g2" for g1 g2 C' r' c'
    using Suc.IH that by blast
  have l: "frame_except r' c' g1 g2" if "permutations_loop n g1 C' r' c' = Returned g2"
    for g1 g2 C' r' c' using Suc.IH that by blast
  have "frame r c g g'" if ret: "backtr (Suc n) g C r c = Returned g'"
  proof -
    consider "g' = g" | "backtr n g C (r + 1) 0 = Returned g'"
      | g1 where "permutations_loop n (set_cell g r c (iota C)) C r c = Returned g1"
          "g' = set_cell g1 r c EmptyProf" "r < length g" "c < length (g ! r)"
      using backtr_Returned_cases[OF ret] by blast
    then show ?thesis
    proof cases
      case 1
      then show ?thesis by (simp add: frame_refl)
    next
      case 2
      from frame_next_row[OF b[OF this]] show ?thesis .
    next
      case 3
      from frame_from_except[OF l[OF 3(1)] 3(3,4)] 3(2) show ?thesis by simp
    qed
  qed
  moreover have "frame_except r c g g'" if ret: "permutations_loop (Suc n) g C r c = Returned g'"
  proof -
    from ret obtain g1 where call: "backtr n g C r (c + 1) = Returned g1"
      by (auto split: outcome.splits)
    from frame_loop_call[OF b[OF call]] have f1: "frame_except r c g g1" .
    obtain again p where np: "next_permutation (g1 ! r ! c) = (again, p)"
      by (cases "next_permutation (g1 ! r ! c)")
    have "permutations_loop (Suc n) g C r c =
        (if r = 0 \<and> c = 0 then Returned g1
         else if again then permutations_loop n (set_cell g1 r c p) C r c
         else Returned (set_cell g1 r c p))"
      using call np by (cases again) simp_all
    with ret consider "g' = g1" | "g' = set_cell g1 r c p"
      | "permutations_loop n (set_cell g1 r c p) C r c = Returned g'"
      by (cases "r = 0 \<and> c = 0"; cases again) auto
    then show ?thesis
    proof cases
      case 1
      with f1 show ?thesis by simp
    next
      case 2
      with frame_except_set_cell[OF f1] show ?thesis by simp
    next
      case 3
      from frame_except_trans[OF f1 l[OF 3]] show ?thesis .
    qed
  qed
  ultimately show ?case by blast
qed

lemma unassigned_from_iff:
  "unassigned_from g r c \<longleftrightarrow>
     (\<forall>i j. i < length g \<and> j < length (g ! i) \<and> \<not> row_major_before (i, j) (r, c)
         \<longrightarrow> g ! i ! j = EmptyProf)"
  by (simp add: unassigned_from_def list_all_iff Ball_def) blast

lemma frame_unassigned:
  assumes "frame r c g g'" and "unassigned_from g r c"
  shows "g' = g"
proof -
  from assms(1) have s: "map length g' = map length g" by (simp add: frame_def)
  show ?thesis
  proof (rule nth_equalityI)
    show "length g' = length g" by (rule same_shape_nth(1)[OF s])
  next
    fix i assume "i < length g'"
    with same_shape_nth(1)[OF s] have i: "i < length g" by simp
    show "g' ! i = g ! i"
    proof (rule nth_equalityI)
      show "length (g' ! i) = length (g ! i)" by (rule same_shape_nth(2)[OF s i])
    next
      fix j assume "j < length (g' ! i)"
      with same_shape_nth(2)[OF s i] have j: "j < length (g ! i)" by simp
      from assms(1) i j
      have "g' ! i ! j = g ! i ! j
          \<or> (\<not> row_major_before (i, j) (r, c) \<and> g' ! i ! j = EmptyProf)"
        unfolding frame_def by blast
      with assms(2) i j show "g' ! i ! j = g ! i ! j"
        unfolding unassigned_from_iff by auto
    qed
  qed
qed








lemma distinct_iota: "distinct (iota C)"
  by (simp add: iota_def distinct_map)




lemma set_iota: "0 \<le> C \<Longrightarrow> set (iota C) = {0..<C}"
  by (simp add: iota_def image_int_atLeastLessThan)

lemma length_iota: "length (iota C) = nat C"
  by (simp add: iota_def)

lemma full_permutation_iota: "0 \<le> C \<Longrightarrow> full_permutation (iota C) C"
  using set_iota[of C] distinct_iota[of C]
  by (simp add: full_permutation_def list_all_iff length_iota)

lemma full_permutation_iff_mset:
  assumes "0 \<le> C"
  shows "full_permutation q C \<longleftrightarrow> mset q = mset (iota C)"
proof
  assume q: "full_permutation q C"
  then have "distinct q" by (simp add: full_permutation_def)
  moreover from full_permutation_set[OF q] set_iota[OF assms] have "set q = set (iota C)" by simp
  ultimately show "mset q = mset (iota C)"
    using distinct_iota[of C] by (simp add: set_eq_iff_mset_eq_distinct)
next
  assume m: "mset q = mset (iota C)"
  from mset_eq_length[OF m] assms have "length q = nat C" by (simp add: iota_def)
  moreover from mset_eq_imp_distinct_iff[OF m] have "distinct q" by (simp add: distinct_iota)
  moreover from mset_eq_setD[OF m] set_iota[OF assms] have "set q = {0..<C}" by simp
  ultimately show "full_permutation q C"
    using assms by (simp add: full_permutation_def list_all_iff)
qed







lemma invariant_initial:
  assumes "0 < N"
  shows "search_invariant N M C (replicate N (replicate M EmptyProf)) 0 0"
  using assms by (simp add: search_invariant_def row_major_before_def)

lemma invariant_next_row:
  assumes inv: "search_invariant N M C g r c" and "r \<noteq> length g" and "c = length (g ! 0)"
    and "0 < N" and "0 < M"
  shows "search_invariant N M C g (r + 1) 0"
proof -
  from inv have len: "length g = N" and rows: "\<forall>i<N. length (g ! i) = M"
    by (simp_all add: search_invariant_def)
  from rows assms(3,4) have cM: "c = M" by simp
  from inv assms(2) len have rN: "r < N" by (auto simp: search_invariant_def)
  have same: "row_major_before (i, j) (r + 1, 0) = row_major_before (i, j) (r, c)" if "j < M" for i j
    using that cM by (auto simp: row_major_before_def)
  have zero: "row_major_before (0, 0) (r, c)" using cM assms(5) by (auto simp: row_major_before_def)
  from inv have cells: "\<forall>i<N. \<forall>j<M.
            (row_major_before (i, j) (r, c) \<longrightarrow> full_permutation (g ! i ! j) C)
            \<and> (\<not> row_major_before (i, j) (r, c) \<longrightarrow> g ! i ! j = EmptyProf)"
    and first: "row_major_before (0, 0) (r, c) \<longrightarrow> g ! 0 ! 0 = iota C"
    by (simp_all add: search_invariant_def)
  from cells same have "\<forall>i<N. \<forall>j<M.
            (row_major_before (i, j) (r + 1, 0) \<longrightarrow> full_permutation (g ! i ! j) C)
            \<and> (\<not> row_major_before (i, j) (r + 1, 0) \<longrightarrow> g ! i ! j = EmptyProf)" by simp
  moreover from first zero have "g ! 0 ! 0 = iota C" by simp
  moreover from rN have "(r + 1 < N \<and> 0 \<le> M) \<or> (r + 1 = N \<and> (0::nat) = 0)" by auto
  ultimately show ?thesis using len rows unfolding search_invariant_def by blast
qed

lemma invariant_assign:
  assumes inv: "search_invariant N M C g r c'" and cur: "r < N" "c < M"
    and c': "c' = c \<or> c' = c + 1" and p: "full_permutation p C"
    and first: "r = 0 \<and> c = 0 \<longrightarrow> p = iota C"
  shows "search_invariant N M C (set_cell g r c p) r (c + 1)"
proof -
  let ?g' = "set_cell g r c p"
  from inv have len: "length g = N" and rows: "\<forall>i<N. length (g ! i) = M"
    and cells: "\<forall>i<N. \<forall>j<M.
            (row_major_before (i, j) (r, c') \<longrightarrow> full_permutation (g ! i ! j) C)
            \<and> (\<not> row_major_before (i, j) (r, c') \<longrightarrow> g ! i ! j = EmptyProf)"
    and zero: "row_major_before (0, 0) (r, c') \<longrightarrow> g ! 0 ! 0 = iota C"
    by (simp_all add: search_invariant_def)
  from len rows cur have rl: "r < length g" and cl: "c < length (g ! r)" by simp_all
  have nth: "?g' ! i ! j = (if i = r \<and> j = c then p else g ! i ! j)" for i j
    by (rule set_cell_nth[OF rl cl])
  have "\<forall>i<N. \<forall>j<M.
            (row_major_before (i, j) (r, c + 1) \<longrightarrow> full_permutation (?g' ! i ! j) C)
            \<and> (\<not> row_major_before (i, j) (r, c + 1) \<longrightarrow> ?g' ! i ! j = EmptyProf)"
  proof (intro allI impI)
    fix i j assume i: "i < N" and j: "j < M"
    show "(row_major_before (i, j) (r, c + 1) \<longrightarrow> full_permutation (?g' ! i ! j) C)
            \<and> (\<not> row_major_before (i, j) (r, c + 1) \<longrightarrow> ?g' ! i ! j = EmptyProf)"
    proof (cases "i = r \<and> j = c")
      case True
      with p show ?thesis by (simp add: nth row_major_before_def)
    next
      case False
      then have "row_major_before (i, j) (r, c + 1) = row_major_before (i, j) (r, c')"
        using c' by (auto simp: row_major_before_def)
      with cells i j False show ?thesis by (auto simp: nth)
    qed
  qed
  moreover have "row_major_before (0, 0) (r, c + 1) \<longrightarrow> ?g' ! 0 ! 0 = iota C"
  proof (cases "r = 0 \<and> c = 0")
    case True
    with first have "p = iota C" by simp
    moreover from nth[of 0 0] True have "?g' ! 0 ! 0 = p" by simp
    ultimately show ?thesis by simp
  next
    case False
    then have "row_major_before (0, 0) (r, c + 1) \<longrightarrow> row_major_before (0, 0) (r, c')"
      using c' by (auto simp: row_major_before_def)
    with zero False show ?thesis by (auto simp: nth)
  qed
  moreover have "length ?g' = N" "\<forall>i<N. length (?g' ! i) = M"
    using len rows by (simp_all add: set_cell_length set_cell_row_length)
  moreover from cur have "(r < N \<and> c + 1 \<le> M) \<or> (r = N \<and> c + 1 = 0)" by simp
  ultimately show ?thesis unfolding search_invariant_def by blast
qed

lemma invariant_unassigned:
  assumes "search_invariant N M C g r c"
  shows "unassigned_from g r c"
  using assms unfolding unassigned_from_iff search_invariant_def by auto

lemma invoked_invariant:
  assumes "invoked g0 C g r c" and "g0 = replicate N (replicate M EmptyProf)"
    and "0 < N" and "0 < M"
  shows "search_invariant N M C g r c"
  using assms
proof (induction rule: invoked.induct)
  case initial
  then show ?case by (simp add: invariant_initial)
next
  case (next_row g r c)
  from next_row.IH[OF next_row.prems] have inv: "search_invariant N M C g r c" .
  from invariant_next_row[OF inv next_row.hyps(3,4) next_row.prems(2,3)] show ?case .
next
  case (first_permutation g r c)
  from first_permutation.IH[OF first_permutation.prems]
  have inv: "search_invariant N M C g r c" .
  then have len: "length g = N" and rows: "\<forall>i<N. length (g ! i) = M"
    and cur: "(r < N \<and> c \<le> M) \<or> (r = N \<and> c = 0)"
    by (simp_all add: search_invariant_def)
  from first_permutation.hyps(3) len cur have rN: "r < N" and "c \<le> M" by auto
  moreover from rows first_permutation.prems(2) len have "length (g ! 0) = M" by simp
  ultimately have cM: "c < M" using first_permutation.hyps(4) by simp
  from invariant_assign[OF inv rN cM _ full_permutation_iota[OF first_permutation.hyps(7)]]
  show ?case by simp
next
  case (later_permutation g r c n g' p)
  from later_permutation.IH[OF later_permutation.prems]
  have inv: "search_invariant N M C g r (c + 1)" .
  then have len: "length g = N" and rows: "\<forall>i<N. length (g ! i) = M"
    and cur: "(r < N \<and> c + 1 \<le> M) \<or> (r = N \<and> c + 1 = 0)"
    and cells: "\<forall>i<N. \<forall>j<M.
            (row_major_before (i, j) (r, c + 1) \<longrightarrow> full_permutation (g ! i ! j) C)
            \<and> (\<not> row_major_before (i, j) (r, c + 1) \<longrightarrow> g ! i ! j = EmptyProf)"
    by (simp_all add: search_invariant_def)
  from cur have rN: "r < N" and cM: "c < M" by simp_all
  from backtr_frame[of n g C r "c + 1" g'] later_permutation.hyps(2)
  have "frame r (c + 1) g g'" by blast
  from frame_unassigned[OF this invariant_unassigned[OF inv]] have same: "g' = g" .
  from cells rN cM have old: "full_permutation (g ! r ! c) C"
    by (simp add: row_major_before_def)
  then have C: "0 \<le> C" by (simp add: full_permutation_def)
  from later_permutation.hyps(4) same
  have "mset p = mset (g ! r ! c)" using next_permutation_mset by simp
  with old have p: "full_permutation p C" by (simp add: full_permutation_iff_mset[OF C])
  from invariant_assign[OF inv rN cM _ p] later_permutation.hyps(3) same show ?case by simp
qed

lemma invariant_leaf_complete:
  assumes inv: "search_invariant N M C g N c" and "0 < C" and "0 < N" and "0 < M"
  shows "complete_grid g"
proof -
  from inv have len: "length g = N" and rows: "\<forall>i<N. length (g ! i) = M"
    and cells: "\<forall>i<N. \<forall>j<M. row_major_before (i, j) (N, c) \<longrightarrow> full_permutation (g ! i ! j) C"
    by (simp_all add: search_invariant_def)
  from rows assms(3) have M0: "length (g ! 0) = M" by simp
  have rect: "rectangular g"
    using len rows M0 assms(3,4) by (simp add: rectangular_def list_all_length)
  have "g ! i ! j \<noteq> EmptyProf" if "i < N" "j < M" for i j
  proof -
    from that cells have "full_permutation (g ! i ! j) C" by (simp add: row_major_before_def)
    with assms(2) have "length (g ! i ! j) = nat C" "0 < nat C"
      by (simp_all add: full_permutation_def)
    then show ?thesis by (auto simp: EmptyProf_def)
  qed
  with len rows have "list_all (list_all (\<lambda>p. p \<noteq> EmptyProf)) g"
    by (simp add: list_all_length)
  with rect show ?thesis by (simp add: complete_grid_def)
qed

lemma any_loop_total:
  "\<forall>x\<in>set xs. \<exists>b. t x = Inr b \<Longrightarrow> \<exists>b. any_loop xs t = Inr b"
proof (induction xs)
  case Nil
  have "any_loop [] t = Inr False" by simp
  then show ?case by blast
next
  case (Cons a xs)
  then obtain b where b: "t a = Inr b" by auto
  from Cons obtain b' where "any_loop xs t = Inr b'" by auto
  with b show ?case by auto
qed

lemma admits_split_line_complete:
  assumes "complete_grid g"
  shows "\<exists>b. admits_split_line g C = Inr b"
proof -
  from assms have rect: "rectangular g" by (simp add: complete_grid_def)
  have inner: "\<exists>b. (case any_loop [0..<nat C] (\<lambda>c. Inr (f c)) of
                      Inl e \<Rightarrow> Inl e | Inr crossed \<Rightarrow> Inr (\<not> crossed)) = Inr b"
    for f :: "nat \<Rightarrow> bool"
  proof -
    from any_loop_total[of "[0..<nat C]" "\<lambda>c. Inr (f c)"]
    obtain b where "any_loop [0..<nat C] (\<lambda>c. Inr (f c)) = Inr b" by blast
    then show ?thesis by simp
  qed
  have outer: "\<exists>b. any_loop xs (\<lambda>i. case any_loop [0..<nat C] (\<lambda>c. Inr (f i c)) of
                      Inl e \<Rightarrow> Inl e | Inr crossed \<Rightarrow> Inr (\<not> crossed)) = Inr b"
    for f :: "nat \<Rightarrow> nat \<Rightarrow> bool" and xs
    using inner by (intro any_loop_total ballI) blast
  have "\<exists>b. any_loop [0..<length g - 1]
      (\<lambda>i. case any_loop [0..<nat C] (\<lambda>c. case get_dominance_box g (int c) of
                   Inl e \<Rightarrow> Inl e
                 | Inr r \<Rightarrow> Inr (intersects_with_horizontal r (int i))) of
              Inl e \<Rightarrow> Inl e | Inr crossed \<Rightarrow> Inr (\<not> crossed)) = Inr b"
    unfolding get_dominance_box_fold[OF assms] sum.case by (rule outer)
  then obtain b1 where b1: "any_loop [0..<length g - 1]
      (\<lambda>i. case any_loop [0..<nat C] (\<lambda>c. case get_dominance_box g (int c) of
                   Inl e \<Rightarrow> Inl e
                 | Inr r \<Rightarrow> Inr (intersects_with_horizontal r (int i))) of
              Inl e \<Rightarrow> Inl e | Inr crossed \<Rightarrow> Inr (\<not> crossed)) = Inr b1" by blast
  have "\<exists>b. any_loop [0..<length (g ! 0) - 1]
      (\<lambda>j. case any_loop [0..<nat C] (\<lambda>c. case get_dominance_box g (int c) of
                   Inl e \<Rightarrow> Inl e
                 | Inr r \<Rightarrow> Inr (intersects_with_vertical r (int j))) of
              Inl e \<Rightarrow> Inl e | Inr crossed \<Rightarrow> Inr (\<not> crossed)) = Inr b"
    unfolding get_dominance_box_fold[OF assms] sum.case by (rule outer)
  then obtain b2 where b2: "any_loop [0..<length (g ! 0) - 1]
      (\<lambda>j. case any_loop [0..<nat C] (\<lambda>c. case get_dominance_box g (int c) of
                   Inl e \<Rightarrow> Inl e
                 | Inr r \<Rightarrow> Inr (intersects_with_vertical r (int j))) of
              Inl e \<Rightarrow> Inl e | Inr crossed \<Rightarrow> Inr (\<not> crossed)) = Inr b2" by blast
  show ?thesis
    unfolding admits_split_line_def with_dims_rectangular[OF rect] b1 b2 by auto
qed

lemma is_monodominated_complete:
  assumes "complete_grid g"
  shows "\<exists>b. is_monodominated g = Inr b"
proof -
  from assms have rect: "rectangular g" by (simp add: complete_grid_def)
  show ?thesis
    unfolding is_monodominated_def with_dims_rectangular[OF rect]
    by (simp add: get_dominance_box_fold[OF assms])
qed

lemma test_hypothesis_1_complete:
  assumes "complete_grid g"
  shows "test_hypothesis_1 g C \<noteq> Failed e"
proof -
  from admits_split_line_complete[OF assms, of C] obtain b1
    where b1: "admits_split_line g C = Inr b1" by blast
  from is_monodominated_complete[OF assms] obtain b2
    where b2: "is_monodominated g = Inr b2" by blast
  show ?thesis by (simp add: test_hypothesis_1_def b1 b2)
qed

text \<open>
  C9 (as the code has it). Frame property of the backtracking. A call
  \<^verbatim>\<open>backtr(g, C, r, c)\<close> that is entered with every voter from \<open>(r, c)\<close> on unassigned,
  which is the precondition in the comment of \<^verbatim>\<open>backtr\<close>, and that returns normally
  leaves the grid equal, cell for cell, to the grid at its entry, so each cell that the
  call assigned is \<open>EmptyProf\<close> again. This covers every call made by the search that
  starts on the all-unassigned \<open>N\<close> by \<open>M\<close> grid.
\<close>

theorem backtr_restores_grid:
  "(backtr n g C r c = Returned g' \<and> unassigned_from g r c \<longrightarrow> g' = g)
   \<and> (invoked (replicate N (replicate M EmptyProf)) C g r c \<and> 0 < N \<and> 0 < M
        \<and> backtr n g C r c = Returned g' \<longrightarrow> g' = g)"
proof (intro conjI impI)
  assume "backtr n g C r c = Returned g' \<and> unassigned_from g r c"
  with backtr_frame[of n g C r c g'] frame_unassigned[of r c g g'] show "g' = g" by blast
next
  assume a: "invoked (replicate N (replicate M EmptyProf)) C g r c \<and> 0 < N \<and> 0 < M
        \<and> backtr n g C r c = Returned g'"
  then have "search_invariant N M C g r c" using invoked_invariant[of _ C g r c N M] by blast
  then have "unassigned_from g r c" by (rule invariant_unassigned)
  with a backtr_frame[of n g C r c g'] frame_unassigned[of r c g g'] show "g' = g" by blast
qed

theorem backtr_restores_grid_witness:
  "unassigned_from [[[0, 1], []], [[], []]] 0 1
   \<and> backtr 12 [[[0, 1], []], [[], []]] 2 0 1 = Returned [[[0, 1], []], [[], []]]
   \<and> invoked (replicate 1 (replicate 2 EmptyProf)) 2 (replicate 1 (replicate 2 EmptyProf)) 0 0
   \<and> backtr 20 (replicate 1 (replicate 2 EmptyProf)) 2 0 0
       = Returned (replicate 1 (replicate 2 EmptyProf))"
proof -
  have h1: "unassigned_from [[[0, 1], []], [[], []]] 0 1" by code_simp
  have h2: "backtr 12 [[[0, 1], []], [[], []]] 2 0 1 = Returned [[[0, 1], []], [[], []]]"
    by code_simp
  have h3: "invoked (replicate 1 (replicate 2 EmptyProf)) 2
              (replicate 1 (replicate 2 EmptyProf)) 0 0"
    by (rule invoked.initial)
  have h4: "backtr 20 (replicate 1 (replicate 2 EmptyProf)) 2 0 0
              = Returned (replicate 1 (replicate 2 EmptyProf))"
    by code_simp
  from backtr_restores_grid[of 12 "[[[0, 1], []], [[], []]]" 2 0 1 "[[[0, 1], []], [[], []]]" 1 2]
    h1 h2 h3 h4 show ?thesis by blast
qed

text \<open>
  The precondition cannot be dropped: a call at (0, 0) on a grid whose two voters are
  already assigned overwrites both cells and returns with both cleared.
\<close>

theorem backtr_restores_grid_counterexample:
  "backtr 20 [[[0, 1], [1, 0]]] 2 0 0 = Returned [[[], []]]
   \<and> backtr 20 [[[0, 1], [1, 0]]] 2 0 0 \<noteq> Returned [[[0, 1], [1, 0]]]"
proof -
  have "backtr 20 [[[0, 1], [1, 0]]] 2 0 0 = Returned [[[], []]]" by code_simp
  then show ?thesis by simp
qed

text \<open>
  C10 (as the code has it). Every invocation \<^verbatim>\<open>backtr(g, C, r, c)\<close> of the search
  started at (0, 0) on the all-unassigned \<open>N\<close> by \<open>M\<close> grid sees a grid of that shape in
  which each cell before \<open>(r, c)\<close> in row-major order holds a full permutation of
  \<open>{0, ..., C - 1}\<close>, cell
  (0, 0) the list \<open>0, ..., C - 1\<close>, and each cell from \<open>(r, c)\<close> on is \<open>EmptyProf\<close>.
  At a leaf \<open>r = N\<close> the grid is complete and the test of hypothesis 1 reads no
  unassigned cell, provided that \<open>0 < C\<close>.
\<close>

theorem search_prefix_invariant:
  assumes "invoked (replicate N (replicate M EmptyProf)) C g r c" and "0 < N" and "0 < M"
  shows "length g = N \<and> (\<forall>i<N. length (g ! i) = M)
       \<and> (\<forall>i<N. \<forall>j<M.
             (row_major_before (i, j) (r, c) \<longrightarrow> full_permutation (g ! i ! j) C)
             \<and> (\<not> row_major_before (i, j) (r, c) \<longrightarrow> g ! i ! j = EmptyProf))
       \<and> (row_major_before (0, 0) (r, c) \<longrightarrow> g ! 0 ! 0 = iota C)
       \<and> (r = N \<and> 0 < C \<longrightarrow> complete_grid g \<and> (\<forall>e. test_hypothesis_1 g C \<noteq> Failed e))"
proof -
  from invoked_invariant[OF assms(1) refl assms(2,3)] have inv: "search_invariant N M C g r c" .
  have "r = N \<and> 0 < C \<longrightarrow> complete_grid g"
    using invariant_leaf_complete[of N M C g c] inv assms(2,3) by blast
  moreover have "complete_grid g \<longrightarrow> (\<forall>e. test_hypothesis_1 g C \<noteq> Failed e)"
    using test_hypothesis_1_complete[of g C] by blast
  ultimately have "r = N \<and> 0 < C \<longrightarrow> complete_grid g \<and> (\<forall>e. test_hypothesis_1 g C \<noteq> Failed e)"
    by blast
  with inv show ?thesis unfolding search_invariant_def by blast
qed

theorem search_prefix_invariant_witness:
  "invoked (replicate 1 (replicate 2 EmptyProf)) 2 [[[0, 1], [1, 0]]] 1 0
   \<and> (0::nat) < 1 \<and> (0::nat) < 2
   \<and> complete_grid [[[0, 1], [1, 0]]]
   \<and> [[[0, 1], [1, 0]]] ! 0 ! 0 = iota 2"
proof -
  let ?g0 = "replicate 1 (replicate 2 EmptyProf)"
  have g0: "?g0 = [[[], []]]" by (simp add: EmptyProf_def numeral_2_eq_2)
  have i0: "invoked ?g0 2 [[[], []]] 0 0" using invoked.initial[of ?g0 2] by (simp only: g0)
  have p0: "proceeds [[[], []]] 2" unfolding proceeds_def by code_simp
  have e1: "set_cell [[[], []]] 0 0 (iota 2) = [[[0, 1], []]]" by code_simp
  have "invoked ?g0 2 (set_cell [[[], []]] 0 0 (iota 2)) 0 (0 + 1)"
    by (rule invoked.first_permutation[OF i0 p0]) simp_all
  then have i1: "invoked ?g0 2 [[[0, 1], []]] 0 1" by (simp only: e1 add_0)
  have p1: "proceeds [[[0, 1], []]] 2" unfolding proceeds_def by code_simp
  have e2: "set_cell [[[0, 1], []]] 0 1 (iota 2) = [[[0, 1], [0, 1]]]" by code_simp
  have "invoked ?g0 2 (set_cell [[[0, 1], []]] 0 1 (iota 2)) 0 (1 + 1)"
    by (rule invoked.first_permutation[OF i1 p1]) simp_all
  then have i2: "invoked ?g0 2 [[[0, 1], [0, 1]]] 0 (1 + 1)" by (simp only: e2)
  have run: "backtr 4 [[[0, 1], [0, 1]]] 2 0 (1 + 1) = Returned [[[0, 1], [0, 1]]]" by code_simp
  have np: "next_permutation ([[[0, 1], [0, 1]]] ! 0 ! 1) = (True, [1, 0])" by code_simp
  have e3: "set_cell [[[0, 1], [0, 1]]] 0 1 [1, 0] = [[[0, 1], [1, 0]]]" by code_simp
  have "invoked ?g0 2 (set_cell [[[0, 1], [0, 1]]] 0 1 [1, 0]) 0 (1 + 1)"
    by (rule invoked.later_permutation[OF i2 run _ np]) simp
  then have i3: "invoked ?g0 2 [[[0, 1], [1, 0]]] 0 2" by (simp only: e3 one_add_one)
  have p3: "proceeds [[[0, 1], [1, 0]]] 2" unfolding proceeds_def by code_simp
  have "invoked ?g0 2 [[[0, 1], [1, 0]]] (0 + 1) 0"
    by (rule invoked.next_row[OF i3 p3]) simp_all
  then have i4: "invoked ?g0 2 [[[0, 1], [1, 0]]] 1 0" by (simp only: add_0)
  have z1: "(0::nat) < 1" and z2: "(0::nat) < 2" by simp_all
  from search_prefix_invariant[OF i4 z1 z2]
  have "(1::nat) = 1 \<and> (0::int) < 2 \<longrightarrow> complete_grid [[[0, 1], [1, 0]]]"
    and "row_major_before (0, 0) (1, 0) \<longrightarrow> [[[0, 1], [1, 0]]] ! 0 ! 0 = iota 2" by blast+
  then have "complete_grid [[[0, 1], [1, 0]]]" and "[[[0, 1], [1, 0]]] ! 0 ! 0 = iota 2"
    by (simp_all add: row_major_before_def)
  with i4 z1 z2 show ?thesis by blast
qed

text \<open>
  The bound \<open>0 < C\<close> at the leaf cannot be dropped. With \<open>C = 0\<close> the only full
  permutation is the empty list, which is the placeholder itself: the search on the
  1 by 1 grid reaches the leaf with its cell equal to \<open>EmptyProf\<close>, the grid is not
  complete, and \<^verbatim>\<open>is_monodominated\<close> reads \<^verbatim>\<open>g[0][0][0]\<close> out of range.
\<close>

theorem search_leaf_counterexample:
  "invoked (replicate 1 (replicate 1 EmptyProf)) 0 [[[]]] 1 0
   \<and> \<not> complete_grid [[[]]]
   \<and> backtr 4 (replicate 1 (replicate 1 EmptyProf)) 0 0 0 = Failed OutOfRange"
proof -
  let ?g0 = "replicate 1 (replicate 1 EmptyProf)"
  have g0: "?g0 = [[[]]]" by (simp add: EmptyProf_def)
  have i0: "invoked ?g0 0 [[[]]] 0 0" using invoked.initial[of ?g0 0] by (simp only: g0)
  have p0: "proceeds [[[]]] 0" unfolding proceeds_def by code_simp
  have e1: "set_cell [[[]]] 0 0 (iota 0) = [[[]]]" by code_simp
  have "invoked ?g0 0 (set_cell [[[]]] 0 0 (iota 0)) 0 (0 + 1)"
    by (rule invoked.first_permutation[OF i0 p0]) simp_all
  then have i1: "invoked ?g0 0 [[[]]] 0 1" by (simp only: e1 add_0)
  have "invoked ?g0 0 [[[]]] (0 + 1) 0"
    by (rule invoked.next_row[OF i1 p0]) simp_all
  then have i2: "invoked ?g0 0 [[[]]] 1 0" by (simp only: add_0)
  have c: "\<not> complete_grid [[[]]]" by code_simp
  have "backtr 4 [[[]]] 0 0 0 = Failed OutOfRange" by code_simp
  with i2 c show ?thesis by (simp only: g0) simp
qed

section \<open>Crossing count beyond the range of an int\<close>

lemma crossings_iota_rev:
  assumes "0 \<le> C"
  shows "crossings (inverse_of (iota C) (nat C)) (inverse_of (rev (iota C)) (nat C)) (nat C)
       = C * (C - 1) div 2"
proof -
  let ?n = "nat C"
  let ?p = "iota C"
  let ?a = "inverse_of ?p ?n"
  from assms have C: "int ?n = C" by simp
  have p: "full_permutation ?p C" by (rule full_permutation_iota[OF assms])
  have "crossings ?a (inverse_of (rev ?p) ?n) ?n = int ?n * (int ?n - 1) div 2"
  proof (rule crossings_all)
    fix ca cb assume lt: "ca < cb" "cb < ?n"
    then have ca: "ca < ?n" by simp
    from inverse_of_inj[OF p ca lt(2)] lt(1) have "?a ! ca \<noteq> ?a ! cb" by simp
    then show "(?a ! ca < ?a ! cb) \<noteq> (inverse_of (rev ?p) ?n ! ca < inverse_of (rev ?p) ?n ! cb)"
      unfolding inverse_of_rev[OF p ca] inverse_of_rev[OF p lt(2)] by auto
  qed
  then show ?thesis by (simp only: C)
qed

text \<open>
  The bound \<open>C \<le> 65536\<close> of the crossing count cannot be dropped. For 65537 candidates
  the list \<open>0, ..., 65536\<close> and its reversal differ on all 2147516416 pairs, more than an
  \<^verbatim>\<open>int\<close> holds: the counter overflows and that number is not returned.
\<close>

theorem cnt_crosses_overflow_counterexample:
  "full_permutation (iota 65537) 65537 \<and> full_permutation (rev (iota 65537)) 65537
   \<and> \<not> int_value (65537 * (65537 - 1) div 2)
   \<and> cnt_crosses (iota 65537) (rev (iota 65537)) 65537 \<noteq> Inr (65537 * (65537 - 1) div 2)
   \<and> cnt_crosses (iota 65537) (rev (iota 65537)) 65537 = Inl SignedOverflow"
proof -
  have p: "full_permutation (iota 65537) 65537" by (rule full_permutation_iota) simp
  have q: "full_permutation (rev (iota 65537)) 65537" by (rule full_permutation_rev[OF p])
  have v: "\<not> int_value (65537 * (65537 - 1) div 2)" by (simp add: int_value_def INF_int_def)
  have c: "crossings (inverse_of (iota 65537) (nat 65537))
             (inverse_of (rev (iota 65537)) (nat 65537)) (nat 65537) = 65537 * (65537 - 1) div 2"
    by (rule crossings_iota_rev) simp
  have e: "cnt_crosses (iota 65537) (rev (iota 65537)) 65537 = Inl SignedOverflow"
    unfolding cnt_crosses_eq[OF p q] c by (simp add: INF_int_def)
  from p q v e show ?thesis by simp
qed

end
